theory Spec2Isabelle
  imports Main
begin

section \<open>JavaScript values\<close>

text \<open>
  A JavaScript string is a sequence of UTF-16 code units; a Buffer is a sequence of
  bytes. Both are lists of naturals here (code units below 65536, bytes below 256).
  \<open>str\<close> turns an ASCII literal into the string of its code units.
\<close>

type_synonym jsstring = "nat list"
type_synonym buffer = "nat list"

definition str :: "string \<Rightarrow> jsstring" where
  "str s = map of_char s"

section \<open>Documents, the object store and the server state\<close>

text \<open>
  A Y.Doc is read by this program through three views only: the text \<open>content\<close>
  (\<open>ydoc.getText('content')\<close>), the map \<open>files\<close> (\<open>ydoc.getMap('files')\<close>, in
  insertion order, each value an object given by its properties) and
  \<open>Y.encodeStateAsUpdate\<close>, a function of the library that every definition below takes
  as the parameter \<open>enc\<close>. Whatever else the document holds is the field \<open>crdt\<close>.
\<close>

type_synonym metadata = "(jsstring \<times> jsstring) list"

record ydoc =
  content :: jsstring
  files :: "(jsstring \<times> metadata) list"
  crdt :: buffer

type_synonym docref = nat

text \<open>The calls on \<open>minioClient\<close> that the program makes, and how a call settles.\<close>

datatype request =
    GetObject jsstring
  | PutObject jsstring buffer
  | StatObject jsstring
  | RemoveObject jsstring
  | ListObjects jsstring

datatype outcome = Resolved | Rejected "jsstring option"

text \<open>What a call that the store carried out does to the bucket.\<close>

fun perform :: "request \<Rightarrow> (jsstring \<rightharpoonup> buffer) \<Rightarrow> (jsstring \<rightharpoonup> buffer)" where
  "perform (PutObject k b) m = m(k \<mapsto> b)"
| "perform (RemoveObject k) m = m(k := None)"
| "perform (GetObject k) m = m"
| "perform (StatObject k) m = m"
| "perform (ListObjects p) m = m"

text \<open>An activation of \<open>saveToMinIO\<close> suspended at its \<open>await\<close>.\<close>

record save_task =
  task_doc :: jsstring
  task_req :: request

text \<open>
  The process state: the two module-level maps \<open>saveLocks\<close> and \<open>saveTimers\<close>, the
  timer table of the event loop (handle to due time and the closure's \<open>docName\<close> and
  \<open>ydoc\<close>), the clock in milliseconds, the heap of documents with their registered
  update observers, the bucket, the saves suspended at an \<open>await\<close>, and the log of the
  calls made on the store so far.
\<close>

record server =
  saveLocks :: "jsstring \<rightharpoonup> bool"
  saveTimers :: "jsstring \<rightharpoonup> nat"
  timeouts :: "nat \<rightharpoonup> nat \<times> jsstring \<times> docref"
  next_timeout :: nat
  now :: nat
  docs :: "docref \<Rightarrow> ydoc"
  observers :: "docref \<Rightarrow> jsstring list"
  bucket :: "jsstring \<rightharpoonup> buffer"
  awaiting :: "save_task list"
  requests :: "request list"

definition object_key :: "jsstring \<Rightarrow> jsstring" where
  "object_key docName = str ''yjs/'' @ docName @ str ''.yjs''"

definition file_index_name :: jsstring where
  "file_index_name = str ''__file_index__''"

section \<open>saveToMinIO\<close>

text \<open>
  \<open>saveToMinIO\<close> of index.js, from its call to its \<open>await\<close>: the guard on the lock,
  \<open>saveLocks.set\<close>, the snapshot, and the \<open>putObject\<close> call it then waits for.
  An \<open>async\<close> function runs synchronously up to its first \<open>await\<close>, so this part is
  one atomic step of the event loop. \<open>Y.encodeStateAsUpdate\<close> and \<open>Buffer.from\<close> are
  taken to return: they do for every document.
\<close>

definition issue :: "jsstring \<Rightarrow> request \<Rightarrow> server \<Rightarrow> server" where
  "issue docName req s =
     s\<lparr>awaiting := awaiting s @ [\<lparr>task_doc = docName, task_req = req\<rparr>],
       requests := requests s @ [req]\<rparr>"

definition saveToMinIO :: "(ydoc \<Rightarrow> buffer) \<Rightarrow> jsstring \<Rightarrow> docref \<Rightarrow> server \<Rightarrow> server" where
  "saveToMinIO enc docName r s =
     (if saveLocks s docName = Some True then s
      else
        let s1 = s\<lparr>saveLocks := (saveLocks s)(docName \<mapsto> True)\<rparr>;
            buffer = enc (docs s1 r)
        in issue docName (PutObject (object_key docName) buffer) s1)"

text \<open>
  \<open>saveToMinIO\<close> of the earlier variant (src/unnamed/part_000): an empty \<open>content\<close>
  text makes it call \<open>removeObject\<close> instead, unless the document is the file index.
\<close>

definition saveToMinIO_part000 ::
  "(ydoc \<Rightarrow> buffer) \<Rightarrow> jsstring \<Rightarrow> docref \<Rightarrow> server \<Rightarrow> server" where
  "saveToMinIO_part000 enc docName r s =
     (if saveLocks s docName = Some True then s
      else
        let s1 = s\<lparr>saveLocks := (saveLocks s)(docName \<mapsto> True)\<rparr>;
            buffer = enc (docs s1 r);
            text = content (docs s1 r)
        in if length text = 0 \<and> docName \<noteq> file_index_name
           then issue docName (RemoveObject (object_key docName)) s1
           else issue docName (PutObject (object_key docName) buffer) s1)"

text \<open>
  The rest of \<open>saveToMinIO\<close> (both variants), from the \<open>await\<close> on: the \<open>i\<close>-th
  suspended save resumes when its call settles. A resolved call has been carried out by
  the store; a rejected one is caught and logged. The \<open>finally\<close> block deletes the
  lock either way.
\<close>

definition settle :: "nat \<Rightarrow> outcome \<Rightarrow> server \<Rightarrow> server" where
  "settle i out s =
     (if i < length (awaiting s) then
        let t = awaiting s ! i;
            s1 = s\<lparr>awaiting := take i (awaiting s) @ drop (Suc i) (awaiting s),
                   bucket := (case out of
                                Resolved \<Rightarrow> perform (task_req t) (bucket s)
                              | Rejected code \<Rightarrow> bucket s)\<rparr>
        in s1\<lparr>saveLocks := (saveLocks s1)(task_doc t := None)\<rparr>
      else s)"

section \<open>debouncedSave and the timers\<close>

definition SAVE_DEBOUNCE_MS :: nat where
  "SAVE_DEBOUNCE_MS = 3000"

definition clearTimeout :: "nat \<Rightarrow> server \<Rightarrow> server" where
  "clearTimeout h s = s\<lparr>timeouts := (timeouts s)(h := None)\<rparr>"

definition setTimeout :: "jsstring \<times> docref \<Rightarrow> nat \<Rightarrow> server \<Rightarrow> nat \<times> server" where
  "setTimeout callback ms s =
     (next_timeout s,
      s\<lparr>timeouts := (timeouts s)(next_timeout s \<mapsto> (now s + ms, callback)),
        next_timeout := Suc (next_timeout s)\<rparr>)"

definition debouncedSave :: "jsstring \<Rightarrow> docref \<Rightarrow> server \<Rightarrow> server" where
  "debouncedSave docName r s =
     (let s1 = (case saveTimers s docName of
                  Some h \<Rightarrow> clearTimeout h s
                | None \<Rightarrow> s);
          (h, s2) = setTimeout (docName, r) SAVE_DEBOUNCE_MS s1
      in s2\<lparr>saveTimers := (saveTimers s2)(docName \<mapsto> h)\<rparr>)"

text \<open>The closure passed to \<open>setTimeout\<close>: the save up to its await, then \<open>saveTimers.delete\<close>.\<close>

definition timer_callback ::
  "(ydoc \<Rightarrow> buffer) \<Rightarrow> jsstring \<Rightarrow> docref \<Rightarrow> server \<Rightarrow> server" where
  "timer_callback enc docName r s =
     (let s1 = saveToMinIO enc docName r s
      in s1\<lparr>saveTimers := (saveTimers s1)(docName := None)\<rparr>)"

text \<open>The event loop runs the callback of a timer that is due and drops the timer.\<close>

definition fire :: "(ydoc \<Rightarrow> buffer) \<Rightarrow> nat \<Rightarrow> server \<Rightarrow> server" where
  "fire enc h s =
     (case timeouts s h of
        None \<Rightarrow> s
      | Some (due, docName, r) \<Rightarrow>
          if due \<le> now s
          then timer_callback enc docName r (s\<lparr>timeouts := (timeouts s)(h := None)\<rparr>)
          else s)"

text \<open>
  All timers of this program have the same delay, so they fall due in the order they
  were created: the event loop runs the due ones by increasing handle.
\<close>

definition run_timers :: "(ydoc \<Rightarrow> buffer) \<Rightarrow> server \<Rightarrow> server" where
  "run_timers enc s = fold (fire enc) [0..<next_timeout s] s"

text \<open>The \<open>writeState\<close> hook, up to the await of the save it calls.\<close>

definition writeState :: "(ydoc \<Rightarrow> buffer) \<Rightarrow> jsstring \<Rightarrow> docref \<Rightarrow> server \<Rightarrow> server" where
  "writeState enc docName r s = saveToMinIO enc docName r s"

section \<open>Update events\<close>

text \<open>
  \<open>ydoc.transact(f)\<close> runs \<open>f\<close> on the document and, when that changed it, emits one
  \<open>update\<close> event, which calls the observers registered with \<open>ydoc.on('update', ...)\<close>
  in order. The observers of this program are the closures of \<open>bindState\<close>, one per
  bound \<open>docName\<close>. The field \<open>updates\<close> logs the events emitted.
\<close>

record app =
  server :: server
  updates :: "docref list"

definition on_server :: "(server \<Rightarrow> server) \<Rightarrow> app \<Rightarrow> app" where
  "on_server f a = a\<lparr>server := f (server a)\<rparr>"

definition emit_update :: "docref \<Rightarrow> app \<Rightarrow> app" where
  "emit_update r a =
     on_server (\<lambda>s. fold (\<lambda>docName. debouncedSave docName r) (observers s r) s)
       (a\<lparr>updates := updates a @ [r]\<rparr>)"

definition transact :: "docref \<Rightarrow> (ydoc \<Rightarrow> ydoc) \<Rightarrow> app \<Rightarrow> app" where
  "transact r f a =
     (let d = docs (server a) r; d' = f d
      in if d' = d then a
         else emit_update r (on_server (\<lambda>s. s\<lparr>docs := (docs s)(r := d')\<rparr>) a))"

section \<open>validateFileIndex\<close>

datatype stat_result = Found | Failed "jsstring option"

text \<open>The character class \<open>[a-zA-Z0-9._-]\<close>, and \<open>key.replace(/[^a-zA-Z0-9._-]/g, '_')\<close>.\<close>

definition safe_char :: "nat \<Rightarrow> bool" where
  "safe_char c =
     ((97 \<le> c \<and> c \<le> 122) \<or> (65 \<le> c \<and> c \<le> 90) \<or> (48 \<le> c \<and> c \<le> 57)
      \<or> c = 46 \<or> c = 95 \<or> c = 45)"

definition sanitize :: "jsstring \<Rightarrow> jsstring" where
  "sanitize key = map (\<lambda>c. if safe_char c then c else 95) key"

definition minioKey :: "jsstring \<Rightarrow> jsstring" where
  "minioKey key = str ''yjs/'' @ sanitize key @ str ''.yjs''"

text \<open>\<open>metadata?.type === 'folder'\<close>, for the value \<open>fileIndex.get(key)\<close>.\<close>

definition is_folder :: "metadata option \<Rightarrow> bool" where
  "is_folder md =
     (case md of
        None \<Rightarrow> False
      | Some props \<Rightarrow> map_of props (str ''type'') = Some (str ''folder''))"

text \<open>
  The scanning loop. \<open>stat i k\<close> is how the \<open>i\<close>-th \<open>statObject\<close> call of the scan
  settles when it asks for key \<open>k\<close>. The accumulator is \<open>keysToDelete\<close> with the log of
  the checks made so far: the entry's key and how its \<open>statObject\<close> call settled.
\<close>

fun scan ::
  "(nat \<Rightarrow> jsstring \<Rightarrow> stat_result) \<Rightarrow> (jsstring \<times> metadata) list \<Rightarrow> jsstring list
     \<Rightarrow> jsstring list \<times> (jsstring \<times> stat_result) list
     \<Rightarrow> jsstring list \<times> (jsstring \<times> stat_result) list" where
  "scan stat fileIndex [] acc = acc"
| "scan stat fileIndex (key # keys) (keysToDelete, checked) =
     (if is_folder (map_of fileIndex key) then scan stat fileIndex keys (keysToDelete, checked)
      else
        (case stat (length checked) (minioKey key) of
           Found \<Rightarrow> scan stat fileIndex keys (keysToDelete, checked @ [(key, Found)])
         | Failed code \<Rightarrow>
             if code = Some (str ''NotFound'')
             then scan stat fileIndex keys
                    (keysToDelete @ [key], checked @ [(key, Failed code)])
             else scan stat fileIndex keys (keysToDelete, checked @ [(key, Failed code)])))"

definition map_delete :: "jsstring \<Rightarrow> ydoc \<Rightarrow> ydoc" where
  "map_delete key d = d\<lparr>files := filter (\<lambda>e. fst e \<noteq> key) (files d)\<rparr>"

text \<open>
  The scan is taken as one step: the document is not changed by anyone else while
  \<open>validateFileIndex\<close> waits for the store.
\<close>

definition validateFileIndex ::
  "(nat \<Rightarrow> jsstring \<Rightarrow> stat_result) \<Rightarrow> docref \<Rightarrow> app \<Rightarrow> app" where
  "validateFileIndex stat r a =
     (let fileIndex = files (docs (server a) r);
          allKeys = map fst fileIndex;
          (keysToDelete, checked) = scan stat fileIndex allKeys ([], []);
          asked = map (\<lambda>c. StatObject (minioKey (fst c))) checked;
          a1 = on_server (\<lambda>s. s\<lparr>requests := requests s @ asked\<rparr>) a
      in if length keysToDelete > 0
         then transact r (\<lambda>d. fold map_delete keysToDelete d) a1
         else a1)"

text \<open>A store that answers every \<open>statObject\<close> from the bucket, without failures.\<close>

definition stat_bucket :: "(jsstring \<rightharpoonup> buffer) \<Rightarrow> nat \<Rightarrow> jsstring \<Rightarrow> stat_result" where
  "stat_bucket m i k = (if m k = None then Failed (Some (str ''NotFound'')) else Found)"

section \<open>bindState\<close>

text \<open>
  \<open>loadFromMinIO\<close>: a resolved \<open>getObject\<close> gives the bytes of the object; the store
  rejects the call when there is no such object or when it fails, and every rejection
  is returned as \<open>null\<close>.
\<close>

definition loadFromMinIO :: "outcome \<Rightarrow> jsstring \<Rightarrow> server \<Rightarrow> buffer option \<times> server" where
  "loadFromMinIO out docName s =
     (case out of Resolved \<Rightarrow> bucket s (object_key docName) | Rejected code \<Rightarrow> None,
      s\<lparr>requests := requests s @ [GetObject (object_key docName)]\<rparr>)"

text \<open>\<open>Y.applyUpdate\<close> is the parameter \<open>applyUpdate\<close>; it runs in a transaction.\<close>

definition bindState ::
  "(buffer \<Rightarrow> ydoc \<Rightarrow> ydoc) \<Rightarrow> jsstring \<Rightarrow> docref \<Rightarrow> outcome
     \<Rightarrow> (nat \<Rightarrow> jsstring \<Rightarrow> stat_result) \<Rightarrow> app \<Rightarrow> app" where
  "bindState applyUpdate docName r out stat a =
     (let (data, s1) = loadFromMinIO out docName (server a);
          a1 = a\<lparr>server := s1\<rparr>;
          a2 = (case data of
                  Some b \<Rightarrow> transact r (applyUpdate b) a1
                | None \<Rightarrow> a1);
          a3 = (if docName = file_index_name then validateFileIndex stat r a2 else a2)
      in on_server (\<lambda>s. s\<lparr>observers := (observers s)(r := observers s r @ [docName])\<rparr>) a3)"

section \<open>Runs of the event loop\<close>

text \<open>
  What can happen to the process, one atomic step each: the engine applies a client's
  update to a document, time passes, a timer fires, the engine calls \<open>writeState\<close> or
  \<open>bindState\<close>, a store call that a save waits for settles.
\<close>

datatype event =
    Update docref "ydoc \<Rightarrow> ydoc"
  | Tick nat
  | Fire nat
  | WriteState jsstring docref
  | Settle nat outcome
  | Bind jsstring docref outcome "nat \<Rightarrow> jsstring \<Rightarrow> stat_result"

fun exec ::
  "(ydoc \<Rightarrow> buffer) \<Rightarrow> (buffer \<Rightarrow> ydoc \<Rightarrow> ydoc) \<Rightarrow> event \<Rightarrow> app \<Rightarrow> app" where
  "exec enc applyUpdate (Update r f) a = transact r f a"
| "exec enc applyUpdate (Tick ms) a = on_server (\<lambda>s. s\<lparr>now := now s + ms\<rparr>) a"
| "exec enc applyUpdate (Fire h) a = on_server (fire enc h) a"
| "exec enc applyUpdate (WriteState docName r) a = on_server (writeState enc docName r) a"
| "exec enc applyUpdate (Settle i out) a = on_server (settle i out) a"
| "exec enc applyUpdate (Bind docName r out stat) a = bindState applyUpdate docName r out stat a"

definition run ::
  "(ydoc \<Rightarrow> buffer) \<Rightarrow> (buffer \<Rightarrow> ydoc \<Rightarrow> ydoc) \<Rightarrow> event list \<Rightarrow> app \<Rightarrow> app" where
  "run enc applyUpdate evs a = fold (exec enc applyUpdate) evs a"

text \<open>The process at start-up, over a bucket and a heap of documents.\<close>

definition startup :: "(jsstring \<rightharpoonup> buffer) \<Rightarrow> (docref \<Rightarrow> ydoc) \<Rightarrow> app" where
  "startup m ds =
     \<lparr>server = \<lparr>saveLocks = Map.empty, saveTimers = Map.empty, timeouts = Map.empty,
                next_timeout = 0, now = 0, docs = ds, observers = (\<lambda>r. []),
                bucket = m, awaiting = [], requests = []\<rparr>,
      updates = []\<rparr>"

section \<open>roomToPath\<close>

text \<open>
  \<open>roomToPath\<close> is built from four operations of the platform, modelled here as
  Node.js 20 (the Dockerfile's image) and ECMAScript define them.
\<close>

datatype js_error = URIError

subsection \<open>The two replacements and the padding loop\<close>

definition replace_char :: "nat \<Rightarrow> nat \<Rightarrow> jsstring \<Rightarrow> jsstring" where
  "replace_char a b s = map (\<lambda>c. if c = a then b else c) s"

lemma pad_step:
  assumes "n mod 4 \<noteq> (0::nat)"
  shows "(4 - Suc n mod 4) mod 4 < (4 - n mod 4) mod 4"
    and "Suc ((4 - Suc n mod 4) mod 4) = (4 - n mod 4) mod 4"
proof -
  define k where "k = n mod 4"
  have "k < 4" unfolding k_def by simp
  then have k: "k = 1 \<or> k = 2 \<or> k = 3" using assms unfolding k_def by linarith
  have s: "Suc n mod 4 = (if k = 3 then 0 else Suc k)"
    unfolding k_def by (simp add: mod_Suc)
  show "(4 - Suc n mod 4) mod 4 < (4 - n mod 4) mod 4"
    unfolding s k_def [symmetric] using k by auto
  show "Suc ((4 - Suc n mod 4) mod 4) = (4 - n mod 4) mod 4"
    unfolding s k_def [symmetric] using k by auto
qed

function pad4 :: "jsstring \<Rightarrow> jsstring" where
  "pad4 base64 = (if length base64 mod 4 \<noteq> 0 then pad4 (base64 @ [61]) else base64)"
  by pat_completeness auto
termination
proof (relation "measure (\<lambda>s. (4 - length s mod 4) mod 4)")
  show "wf (measure (\<lambda>s. (4 - length s mod 4) mod 4))" by simp
next
  fix base64 :: jsstring
  assume "length base64 mod 4 \<noteq> 0"
  then have "(4 - Suc (length base64) mod 4) mod 4 < (4 - length base64 mod 4) mod 4"
    by (rule pad_step(1))
  then show "(base64 @ [61], base64) \<in> measure (\<lambda>s. (4 - length s mod 4) mod 4)"
    by simp
qed

declare pad4.simps [simp del]

subsection \<open>Buffer.from(base64, 'base64')\<close>

text \<open>
  Node's base64 decoder never fails. It reads every code unit through a cast to one
  byte, accepts both alphabets (\<open>+\<close> and \<open>-\<close> are 62, \<open>/\<close> and \<open>_\<close> are 63), skips
  every other character, and stops at the first \<open>=\<close>. Four sextets give three bytes;
  at the end of the input two sextets give one byte, three give two, and a single one
  gives none.
\<close>

definition unbase64 :: "nat \<Rightarrow> nat option" where
  "unbase64 c =
     (if 65 \<le> c \<and> c \<le> 90 then Some (c - 65)
      else if 97 \<le> c \<and> c \<le> 122 then Some (c - 71)
      else if 48 \<le> c \<and> c \<le> 57 then Some (c + 4)
      else if c = 43 \<or> c = 45 then Some 62
      else if c = 47 \<or> c = 95 then Some 63
      else None)"

fun sextets_to_bytes :: "nat list \<Rightarrow> buffer" where
  "sextets_to_bytes (a # b # c # d # rest) =
     (a * 4 + b div 16) # ((b mod 16) * 16 + c div 4) # ((c mod 4) * 64 + d)
       # sextets_to_bytes rest"
| "sextets_to_bytes [a, b, c] = [a * 4 + b div 16, (b mod 16) * 16 + c div 4]"
| "sextets_to_bytes [a, b] = [a * 4 + b div 16]"
| "sextets_to_bytes rest = []"

definition Buffer_from_base64 :: "jsstring \<Rightarrow> buffer" where
  "Buffer_from_base64 s =
     sextets_to_bytes
       (List.map_filter unbase64 (takeWhile (\<lambda>c. c \<noteq> 61) (map (\<lambda>c. c mod 256) s)))"

subsection \<open>buffer.toString('utf-8')\<close>

text \<open>
  The UTF-8 decoder never fails either: every maximal ill-formed part of the input
  becomes U+FFFD. A decoded code point above U+FFFF becomes a surrogate pair.
\<close>

definition utf16_encode :: "nat \<Rightarrow> jsstring" where
  "utf16_encode cp =
     (if cp < 65536 then [cp]
      else [55296 + (cp - 65536) div 1024, 56320 + (cp - 65536) mod 1024])"

datatype utf8_state = Idle | Pending nat nat nat nat

text \<open>A byte met outside a sequence: the state it leads to and what is emitted.\<close>

definition utf8_lead :: "nat \<Rightarrow> utf8_state \<times> jsstring" where
  "utf8_lead b =
     (if b \<le> 127 then (Idle, [b])
      else if 194 \<le> b \<and> b \<le> 223 then (Pending (b - 192) 1 128 191, [])
      else if 224 \<le> b \<and> b \<le> 239
        then (Pending (b - 224) 2 (if b = 224 then 160 else 128) (if b = 237 then 159 else 191), [])
      else if 240 \<le> b \<and> b \<le> 244
        then (Pending (b - 240) 3 (if b = 240 then 144 else 128) (if b = 244 then 143 else 191), [])
      else (Idle, [65533]))"

text \<open>
  \<open>Pending cp n lo hi\<close>: inside a sequence, \<open>n\<close> more bytes are needed and the next
  one must lie in \<open>lo..hi\<close>. A byte outside ends the sequence with U+FFFD and is read
  again as a first byte.
\<close>

fun utf8_decode :: "utf8_state \<Rightarrow> buffer \<Rightarrow> jsstring" where
  "utf8_decode Idle [] = []"
| "utf8_decode (Pending cp n lo hi) [] = [65533]"
| "utf8_decode Idle (b # bs) =
     (case utf8_lead b of (st, out) \<Rightarrow> out @ utf8_decode st bs)"
| "utf8_decode (Pending cp n lo hi) (b # bs) =
     (if b < lo \<or> hi < b
      then 65533 # (case utf8_lead b of (st, out) \<Rightarrow> out @ utf8_decode st bs)
      else
        let cp' = cp * 64 + (b - 128)
        in if n = 1 then utf16_encode cp' @ utf8_decode Idle bs
           else utf8_decode (Pending cp' (n - 1) 128 191) bs)"

definition toString_utf8 :: "buffer \<Rightarrow> jsstring" where
  "toString_utf8 bs = utf8_decode Idle bs"

subsection \<open>decodeURIComponent\<close>

text \<open>
  ECMAScript's \<open>Decode\<close> with an empty set of preserved escapes. A \<open>%\<close> must be
  followed by two hexadecimal digits; an octet with leading one bits starts a UTF-8
  sequence whose other octets must be escapes too, and the sequence must encode a
  Unicode code point (shortest form, no surrogate, at most U+10FFFF). Everything else
  throws \<open>URIError\<close>.
\<close>

definition hex_digit :: "nat \<Rightarrow> nat option" where
  "hex_digit c =
     (if 48 \<le> c \<and> c \<le> 57 then Some (c - 48)
      else if 65 \<le> c \<and> c \<le> 70 then Some (c - 55)
      else if 97 \<le> c \<and> c \<le> 102 then Some (c - 87)
      else None)"

text \<open>\<open>ParseHexOctet\<close> at the front of the string.\<close>

fun hex_octet :: "jsstring \<Rightarrow> nat option" where
  "hex_octet (h # l # rest) =
     (case (hex_digit h, hex_digit l) of
        (Some x, Some y) \<Rightarrow> Some (16 * x + y)
      | other \<Rightarrow> None)"
| "hex_octet rest = None"

text \<open>The number of leading one bits of an octet.\<close>

definition leading_ones :: "nat \<Rightarrow> nat" where
  "leading_ones b =
     (if b < 128 then 0 else if b < 192 then 1 else if b < 224 then 2 else if b < 240 then 3
      else if b < 248 then 4 else if b < 252 then 5 else if b < 254 then 6
      else if b < 255 then 7 else 8)"

text \<open>The next \<open>k\<close> escapes \<open>%XX\<close> at the front of the string, as octets.\<close>

fun escaped_octets :: "nat \<Rightarrow> jsstring \<Rightarrow> nat list option" where
  "escaped_octets 0 s = Some []"
| "escaped_octets (Suc k) (c # s) =
     (if c \<noteq> 37 then None
      else case hex_octet s of
             None \<Rightarrow> None
           | Some b \<Rightarrow> (case escaped_octets k (drop 2 s) of
                          None \<Rightarrow> None
                        | Some bs \<Rightarrow> Some (b # bs)))"
| "escaped_octets (Suc k) [] = None"

text \<open>The code point that a sequence of two to four octets encodes, if it is valid UTF-8.\<close>

definition continuation :: "nat \<Rightarrow> bool" where
  "continuation b = (128 \<le> b \<and> b \<le> 191)"

definition scalar_value :: "nat \<Rightarrow> bool" where
  "scalar_value v = (v \<le> 1114111 \<and> \<not> (55296 \<le> v \<and> v \<le> 57343))"

fun utf8_code_point :: "nat list \<Rightarrow> nat option" where
  "utf8_code_point [a, b] =
     (let v = (a - 192) * 64 + (b - 128)
      in if continuation b \<and> 128 \<le> v then Some v else None)"
| "utf8_code_point [a, b, c] =
     (let v = (a - 224) * 4096 + (b - 128) * 64 + (c - 128)
      in if continuation b \<and> continuation c \<and> 2048 \<le> v \<and> scalar_value v
         then Some v else None)"
| "utf8_code_point [a, b, c, d] =
     (let v = (a - 240) * 262144 + (b - 128) * 4096 + (c - 128) * 64 + (d - 128)
      in if continuation b \<and> continuation c \<and> continuation d \<and> 65536 \<le> v
            \<and> scalar_value v
         then Some v else None)"
| "utf8_code_point octets = None"

definition emit :: "jsstring \<Rightarrow> js_error + jsstring \<Rightarrow> js_error + jsstring" where
  "emit units r = (case r of Inl e \<Rightarrow> Inl e | Inr s \<Rightarrow> Inr (units @ s))"

function decodeURIComponent :: "jsstring \<Rightarrow> js_error + jsstring" where
  "decodeURIComponent [] = Inr []"
| "decodeURIComponent (c # s) =
     (if c \<noteq> 37 then emit [c] (decodeURIComponent s)
      else
        case hex_octet s of
          None \<Rightarrow> Inl URIError
        | Some b \<Rightarrow>
            let rest = drop 2 s; n = leading_ones b
            in if n = 0 then emit [b] (decodeURIComponent rest)
               else if n = 1 \<or> n > 4 then Inl URIError
               else if length rest < 3 * (n - 1) then Inl URIError
               else
                 case escaped_octets (n - 1) rest of
                   None \<Rightarrow> Inl URIError
                 | Some octets \<Rightarrow>
                     (case utf8_code_point (b # octets) of
                        None \<Rightarrow> Inl URIError
                      | Some v \<Rightarrow>
                          emit (utf16_encode v)
                            (decodeURIComponent (drop (3 * (n - 1)) rest))))"
  by pat_completeness auto
termination
  by (relation "measure length") auto

subsection \<open>roomToPath\<close>

definition roomToPath :: "jsstring \<Rightarrow> js_error + jsstring" where
  "roomToPath room =
     (let base64 = replace_char 95 47 (replace_char 45 43 room);
          base64 = pad4 base64
      in decodeURIComponent (toString_utf8 (Buffer_from_base64 base64)))"

section \<open>The HTTP handler\<close>

text \<open>
  \<open>JSON.stringify\<close> of a string (ECMAScript's \<open>QuoteJSONString\<close>): the quote, the
  backslash and the control characters are escaped, a surrogate that is not part of a
  pair is written as \<open>\uXXXX\<close>, every other character stands for itself.
\<close>

definition hex_lower :: "nat \<Rightarrow> nat" where
  "hex_lower d = (if d < 10 then 48 + d else 87 + d)"

definition unicode_escape :: "nat \<Rightarrow> jsstring" where
  "unicode_escape c =
     [92, 117, hex_lower (c div 4096), hex_lower ((c div 256) mod 16),
      hex_lower ((c div 16) mod 16), hex_lower (c mod 16)]"

definition high_surrogate :: "nat \<Rightarrow> bool" where
  "high_surrogate c = (55296 \<le> c \<and> c \<le> 56319)"

definition low_surrogate :: "nat \<Rightarrow> bool" where
  "low_surrogate c = (56320 \<le> c \<and> c \<le> 57343)"

definition quote_unit :: "nat \<Rightarrow> jsstring" where
  "quote_unit c =
     (if c = 8 then [92, 98] else if c = 9 then [92, 116] else if c = 10 then [92, 110]
      else if c = 12 then [92, 102] else if c = 13 then [92, 114]
      else if c = 34 then [92, 34] else if c = 92 then [92, 92]
      else if c < 32 \<or> high_surrogate c \<or> low_surrogate c then unicode_escape c
      else [c])"

fun quote_units :: "jsstring \<Rightarrow> jsstring" where
  "quote_units [] = []"
| "quote_units [c] = quote_unit c"
| "quote_units (c # d # rest) =
     (if high_surrogate c \<and> low_surrogate d then c # d # quote_units rest
      else quote_unit c @ quote_units (d # rest))"

definition QuoteJSONString :: "jsstring \<Rightarrow> jsstring" where
  "QuoteJSONString s = [34] @ quote_units s @ [34]"

fun join_comma :: "jsstring list \<Rightarrow> jsstring" where
  "join_comma [] = []"
| "join_comma [x] = x"
| "join_comma (x # y # rest) = x @ [44] @ join_comma (y # rest)"

text \<open>\<open>JSON.stringify({ files })\<close> and \<open>JSON.stringify({ error: err.message })\<close>.\<close>

definition stringify_files :: "jsstring list \<Rightarrow> jsstring" where
  "stringify_files file_list =
     str ''{'' @ QuoteJSONString (str ''files'') @ str '':[''
       @ join_comma (map QuoteJSONString file_list) @ str '']}''"

definition stringify_error :: "jsstring \<Rightarrow> jsstring" where
  "stringify_error message =
     str ''{'' @ QuoteJSONString (str ''error'') @ str '':'' @ QuoteJSONString message @ str ''}''"

text \<open>\<open>key.startsWith\<close>, \<open>key.endsWith\<close> and \<open>key.slice(4, -4)\<close>.\<close>

definition startsWith :: "jsstring \<Rightarrow> jsstring \<Rightarrow> bool" where
  "startsWith key p = (take (length p) key = p)"

definition endsWith :: "jsstring \<Rightarrow> jsstring \<Rightarrow> bool" where
  "endsWith key p = (length p \<le> length key \<and> drop (length key - length p) key = p)"

definition slice_4_4 :: "jsstring \<Rightarrow> jsstring" where
  "slice_4_4 key = take (length key - 8) (drop 4 key)"

text \<open>
  The loop over the object stream of \<open>listObjects\<close>, in the order the store lists the
  names; the accumulator \<open>file_list\<close> is the array \<open>files\<close>. A room name that \<open>roomToPath\<close> throws on is
  logged and skipped.
\<close>

fun collect :: "jsstring list \<Rightarrow> jsstring list \<Rightarrow> jsstring list" where
  "collect [] file_list = file_list"
| "collect (key # rest) file_list =
     (if startsWith key (str ''yjs/'') \<and> endsWith key (str ''.yjs'') then
        let roomName = slice_4_4 key
        in if roomName = str ''__file_index__'' then collect rest file_list
           else (case roomToPath roomName of
                   Inr filePath \<Rightarrow> collect rest (file_list @ [filePath])
                 | Inl err \<Rightarrow> collect rest file_list)
      else collect rest file_list)"

record http_request =
  req_method :: jsstring
  pathname :: jsstring

record http_response =
  status :: nat
  headers :: "(jsstring \<times> jsstring) list"
  body :: jsstring

definition cors_headers :: "(jsstring \<times> jsstring) list" where
  "cors_headers =
     [(str ''Access-Control-Allow-Origin'', str ''*''),
      (str ''Access-Control-Allow-Methods'', str ''GET, OPTIONS''),
      (str ''Access-Control-Allow-Headers'', str ''Content-Type'')]"

text \<open>
  The request handler. \<open>names\<close> are the object names that the stream of
  \<open>listObjects\<close> yields; \<open>failure\<close> is the message of the error the stream ends with,
  if it fails. \<open>pathname\<close> is the path of \<open>new URL(req.url, ...)\<close>.
\<close>

definition handle_request ::
  "http_request \<Rightarrow> jsstring list \<Rightarrow> jsstring option \<Rightarrow> http_response" where
  "handle_request req names failure =
     (if req_method req = str ''OPTIONS''
      then \<lparr>status = 200, headers = cors_headers, body = []\<rparr>
      else if pathname req = str ''/files'' \<and> req_method req = str ''GET'' then
        (case failure of
           None \<Rightarrow>
             \<lparr>status = 200,
              headers = cors_headers @ [(str ''Content-Type'', str ''application/json'')],
              body = stringify_files (collect names [])\<rparr>
         | Some message \<Rightarrow>
             \<lparr>status = 500,
              headers = cors_headers @ [(str ''Content-Type'', str ''application/json'')],
              body = stringify_error message\<rparr>)
      else
        \<lparr>status = 200,
         headers = cors_headers @ [(str ''Content-Type'', str ''text/plain'')],
         body = str ''Yjs sync server running''\<rparr>)"

section \<open>The path to room encoding\<close>

text \<open>
  Modelled from the spec: the encoder of room names (\<open>pathToRoom\<close>, which the comment
  on \<open>roomToPath\<close> names) is not in the sources of the server. The spec gives it as
  UTF-8 encode, then percent-encode, then base64url encode without padding. The first
  two steps are taken to be ECMAScript's \<open>encodeURIComponent\<close> (its \<open>Encode\<close>
  operation, here for any set of characters left unescaped), which throws on a
  surrogate that is not part of a pair; the third maps three bytes to four characters
  of the alphabet \<open>A-Z a-z 0-9 - _\<close> and writes no \<open>=\<close>.
\<close>

definition utf8_encode :: "nat \<Rightarrow> nat list" where
  "utf8_encode cp =
     (if cp < 128 then [cp]
      else if cp < 2048 then [192 + cp div 64, 128 + cp mod 64]
      else if cp < 65536 then [224 + cp div 4096, 128 + (cp div 64) mod 64, 128 + cp mod 64]
      else [240 + cp div 262144, 128 + (cp div 4096) mod 64, 128 + (cp div 64) mod 64,
            128 + cp mod 64])"

definition hex_upper :: "nat \<Rightarrow> nat" where
  "hex_upper d = (if d < 10 then 48 + d else 55 + d)"

definition escape_octet :: "nat \<Rightarrow> jsstring" where
  "escape_octet b = [37, hex_upper (b div 16), hex_upper (b mod 16)]"

definition escape_octets :: "nat list \<Rightarrow> jsstring" where
  "escape_octets bs = concat (map escape_octet bs)"

fun percent_encode :: "(nat \<Rightarrow> bool) \<Rightarrow> jsstring \<Rightarrow> js_error + jsstring" where
  "percent_encode unescaped [] = Inr []"
| "percent_encode unescaped (c # s) =
     (if unescaped c then emit [c] (percent_encode unescaped s)
      else if high_surrogate c then
        (case s of
           [] \<Rightarrow> Inl URIError
         | d # rest \<Rightarrow>
             if low_surrogate d
             then emit (escape_octets (utf8_encode (65536 + (c - 55296) * 1024 + (d - 56320))))
                    (percent_encode unescaped rest)
             else Inl URIError)
      else if low_surrogate c then Inl URIError
      else emit (escape_octets (utf8_encode c)) (percent_encode unescaped s))"

text \<open>The characters \<open>encodeURIComponent\<close> leaves as they are: \<open>A-Z a-z 0-9 - _ . ! ~ * ' ( )\<close>.\<close>

definition uri_unescaped :: "nat \<Rightarrow> bool" where
  "uri_unescaped c =
     ((65 \<le> c \<and> c \<le> 90) \<or> (97 \<le> c \<and> c \<le> 122) \<or> (48 \<le> c \<and> c \<le> 57)
      \<or> c = 45 \<or> c = 95 \<or> c = 46 \<or> c = 33 \<or> c = 126 \<or> c = 42 \<or> c = 39
      \<or> c = 40 \<or> c = 41)"

definition encodeURIComponent :: "jsstring \<Rightarrow> js_error + jsstring" where
  "encodeURIComponent s = percent_encode uri_unescaped s"

fun sextets :: "buffer \<Rightarrow> nat list" where
  "sextets (a # b # c # rest) =
     (a div 4) # ((a mod 4) * 16 + b div 16) # ((b mod 16) * 4 + c div 64) # (c mod 64)
       # sextets rest"
| "sextets [a, b] = [a div 4, (a mod 4) * 16 + b div 16, (b mod 16) * 4]"
| "sextets [a] = [a div 4, (a mod 4) * 16]"
| "sextets [] = []"

definition base64url_char :: "nat \<Rightarrow> nat" where
  "base64url_char v =
     (if v < 26 then 65 + v else if v < 52 then 71 + v else if v < 62 then v - 4
      else if v = 62 then 45 else 95)"

definition base64url :: "buffer \<Rightarrow> jsstring" where
  "base64url bs = map base64url_char (sextets bs)"

text \<open>The escaped string is ASCII: its UTF-8 bytes are its code units.\<close>

definition pathToRoom :: "jsstring \<Rightarrow> js_error + jsstring" where
  "pathToRoom path =
     (case encodeURIComponent path of
        Inl e \<Rightarrow> Inl e
      | Inr escaped \<Rightarrow> Inr (base64url escaped))"

text \<open>
  A valid path is a well-formed string: code units below 65536, every high surrogate
  followed by a low one, and no low surrogate elsewhere.
\<close>

fun wellformed :: "jsstring \<Rightarrow> bool" where
  "wellformed [] = True"
| "wellformed [c] = (c < 65536 \<and> \<not> high_surrogate c \<and> \<not> low_surrogate c)"
| "wellformed (c # d # rest) =
     (if high_surrogate c then low_surrogate d \<and> wellformed rest
      else c < 65536 \<and> \<not> low_surrogate c \<and> wellformed (d # rest))"

section \<open>Invariants and example inputs\<close>

text \<open>
  The saves in flight have pairwise different names, and \<open>saveLocks\<close> holds \<open>true\<close>
  for exactly those names and nothing else.
\<close>

definition lock_inv :: "server \<Rightarrow> bool" where
  "lock_inv s =
     (distinct (map task_doc (awaiting s)) \<and>
      (\<forall>n. saveLocks s n = (if n \<in> set (map task_doc (awaiting s)) then Some True else None)))"

fun is_remove :: "request \<Rightarrow> bool" where
  "is_remove (RemoveObject k) = True"
| "is_remove q = False"

text \<open>No \<open>removeObject\<close> call is in flight or has ever been made.\<close>

definition no_removal :: "server \<Rightarrow> bool" where
  "no_removal s =
     ((\<forall>t \<in> set (awaiting s). \<not> is_remove (task_req t)) \<and>
      (\<forall>q \<in> set (requests s). \<not> is_remove q))"

text \<open>
  Every live timer is the one \<open>saveTimers\<close> holds for its name, and every handle in
  \<open>saveTimers\<close> has been handed out by \<open>setTimeout\<close>.
\<close>

definition timers_inv :: "server \<Rightarrow> bool" where
  "timers_inv s =
     ((\<forall>h due n r. timeouts s h = Some (due, n, r) \<longrightarrow> saveTimers s n = Some h) \<and>
      (\<forall>n h. saveTimers s n = Some h \<longrightarrow> h < next_timeout s))"

text \<open>The calls that write the object of key \<open>k\<close>.\<close>

fun writes_to :: "jsstring \<Rightarrow> request \<Rightarrow> bool" where
  "writes_to k (PutObject k' b) = (k' = k)"
| "writes_to k (RemoveObject k') = (k' = k)"
| "writes_to k q = False"

text \<open>
  What a run of other documents' timers cannot change for the name \<open>n\<close>: its lock, its
  entry in \<open>saveTimers\<close>, its timers, the clock, the documents, the handle counter and
  the writes made to its object.
\<close>

definition timer_of :: "jsstring \<Rightarrow> (nat \<times> jsstring \<times> docref) option \<Rightarrow> (nat \<times> docref) option" where
  "timer_of n t =
     (case t of None \<Rightarrow> None | Some (due, m, r) \<Rightarrow> if m = n then Some (due, r) else None)"

definition view ::
  "jsstring \<Rightarrow> server \<Rightarrow>
     bool option \<times> nat option \<times> (nat \<Rightarrow> (nat \<times> docref) option) \<times> nat \<times> (docref \<Rightarrow> ydoc)
       \<times> nat \<times> request list" where
  "view n s =
     (saveLocks s n, saveTimers s n, (\<lambda>h. timer_of n (timeouts s h)), now s, docs s,
      next_timeout s, filter (writes_to (object_key n)) (requests s))"

definition quiet :: "jsstring \<Rightarrow> server \<Rightarrow> nat \<Rightarrow> bool" where
  "quiet n s h =
     (case timer_of n (timeouts s h) of None \<Rightarrow> True | Some (due, r) \<Rightarrow> now s < due)"

text \<open>
  A burst of two schedules: \<open>debouncedSave\<close> is called for the name, \<open>d\<close> ms pass
  (the event loop runs the timers that fell due), the documents are changed to \<open>ds\<close> and
  \<open>debouncedSave\<close> is called again, then \<open>e\<close> ms pass and the event loop runs the
  timers that fell due.
\<close>

definition burst ::
  "(ydoc \<Rightarrow> buffer) \<Rightarrow> jsstring \<Rightarrow> docref \<Rightarrow> nat \<Rightarrow> (docref \<Rightarrow> ydoc) \<Rightarrow> nat \<Rightarrow> server
     \<Rightarrow> server" where
  "burst enc docName r d ds e s0 =
     (let s1 = debouncedSave docName r s0;
          s2 = run_timers enc (s1\<lparr>now := now s1 + d\<rparr>);
          s3 = debouncedSave docName r (s2\<lparr>docs := ds\<rparr>)
      in run_timers enc (s3\<lparr>now := now s3 + e\<rparr>))"

text \<open>Concrete inputs for the examples.\<close>

definition demo_name :: jsstring where
  "demo_name = str ''note''"

definition demo_doc :: ydoc where
  "demo_doc = \<lparr>content = str ''v1'', files = [], crdt = []\<rparr>"

definition demo_heap :: "docref \<Rightarrow> ydoc" where
  "demo_heap r = demo_doc"

definition keep_doc :: "buffer \<Rightarrow> ydoc \<Rightarrow> ydoc" where
  "keep_doc b d = d"

definition edit :: "ydoc \<Rightarrow> ydoc" where
  "edit d = d\<lparr>content := str ''v2''\<rparr>"

definition demo_start :: app where
  "demo_start = startup Map.empty demo_heap"

definition demo_busy :: server where
  "demo_busy = server (run content keep_doc [WriteState demo_name 0] demo_start)"

definition demo_saved :: app where
  "demo_saved = run content keep_doc [WriteState demo_name 0, Settle 0 Resolved] demo_start"

definition demo_later :: "event list" where
  "demo_later = [Update 0 edit, WriteState demo_name 0, Settle 0 (Rejected None)]"

definition demo_flush :: "event list" where
  "demo_flush = [WriteState demo_name 0, Update 0 edit, WriteState demo_name 0, Settle 0 Resolved]"

definition demo_edited :: server where
  "demo_edited = server (run content keep_doc [WriteState demo_name 0, Update 0 edit] demo_start)"

definition demo_flushed :: server where
  "demo_flushed = server (run content keep_doc demo_flush demo_start)"

definition index_doc :: ydoc where
  "index_doc = \<lparr>content = [], files = [], crdt = [7]\<rparr>"

definition index_heap :: "docref \<Rightarrow> ydoc" where
  "index_heap r = index_doc"

definition edited_heap :: "docref \<Rightarrow> ydoc" where
  "edited_heap r = edit demo_doc"

text \<open>A file index with two files and a folder, and a bucket that holds only the object of \<open>b\<close>.\<close>

definition file_meta :: metadata where
  "file_meta = [(str ''type'', str ''file'')]"

definition folder_meta :: metadata where
  "folder_meta = [(str ''type'', str ''folder'')]"

definition abc_index :: ydoc where
  "abc_index =
     \<lparr>content = [],
      files = [(str ''a'', file_meta), (str ''b'', file_meta), (str ''c'', folder_meta)],
      crdt = []\<rparr>"

definition abc_heap :: "docref \<Rightarrow> ydoc" where
  "abc_heap r = abc_index"

definition only_b :: "jsstring \<rightharpoonup> buffer" where
  "only_b = [object_key (str ''b'') \<mapsto> [1]]"

definition abc_start :: app where
  "abc_start = startup only_b abc_heap"

text \<open>The rejection \<open>NotFound\<close>, and a store whose first call fails with another error.\<close>

definition not_found :: stat_result where
  "not_found = Failed (Some (str ''NotFound''))"

definition flaky :: "nat \<Rightarrow> jsstring \<Rightarrow> stat_result" where
  "flaky i k = (if i = 0 then Failed (Some (str ''ECONNRESET'')) else Found)"

text \<open>
  The request \<open>GET /files\<close>, and the three objects of the listing scenario in the order
  the scenario names them and in the order of their keys.
\<close>

definition get_files :: http_request where
  "get_files = \<lparr>req_method = str ''GET'', pathname = str ''/files''\<rparr>"

definition listed_objects :: "jsstring list" where
  "listed_objects = [str ''yjs/__file_index__.yjs'', str ''yjs/Zm9vLm1k.yjs'', str ''yjs/%%%.yjs'']"

definition listed_objects_sorted :: "jsstring list" where
  "listed_objects_sorted = [str ''yjs/%%%.yjs'', str ''yjs/Zm9vLm1k.yjs'', str ''yjs/__file_index__.yjs'']"

text \<open>A path with an accented letter, a slash and a character outside the basic plane.\<close>

definition sample_path :: jsstring where
  "sample_path = [233, 47, 55357, 56832, 46, 109, 100]"

text \<open>The variant's save of an empty file index in flight.\<close>

definition index_busy :: server where
  "index_busy = saveToMinIO_part000 crdt file_index_name 0 (server (startup Map.empty index_heap))"

section \<open>Frame lemmas\<close>

lemma debouncedSave_fields:
  "saveLocks (debouncedSave n r s) = saveLocks s"
  "awaiting (debouncedSave n r s) = awaiting s"
  "bucket (debouncedSave n r s) = bucket s"
  "requests (debouncedSave n r s) = requests s"
  "docs (debouncedSave n r s) = docs s"
  "observers (debouncedSave n r s) = observers s"
  "now (debouncedSave n r s) = now s"
  by (simp_all add: debouncedSave_def setTimeout_def clearTimeout_def Let_def split: option.splits)

lemma distinct_remove_nth:
  "distinct ys \<Longrightarrow> distinct (take i ys @ drop (Suc i) ys)"
proof (induction ys arbitrary: i)
  case Nil
  then show ?case by simp
next
  case (Cons y ys)
  show ?case
  proof (cases i)
    case 0
    then show ?thesis using Cons.prems by simp
  next
    case (Suc j)
    have "y \<notin> set (take j ys)" "y \<notin> set (drop (Suc j) ys)"
      using Cons.prems by (auto dest: in_set_takeD in_set_dropD)
    then show ?thesis using Suc Cons.IH [of j] Cons.prems by simp
  qed
qed

lemma set_remove_nth:
  "distinct ys \<Longrightarrow> i < length ys \<Longrightarrow> set (take i ys @ drop (Suc i) ys) = set ys - {ys ! i}"
proof (induction ys arbitrary: i)
  case Nil
  then show ?case by simp
next
  case (Cons y ys)
  show ?case
  proof (cases i)
    case 0
    then show ?thesis using Cons.prems by simp
  next
    case (Suc j)
    have "set (take j ys @ drop (Suc j) ys) = set ys - {ys ! j}"
      using Cons.IH [of j] Cons.prems Suc by simp
    moreover have "y \<noteq> ys ! j"
      using Cons.prems Suc by auto
    ultimately show ?thesis using Suc by auto
  qed
qed

lemma remove_nth_distinct:
  assumes "distinct (map f xs)"
  shows "distinct (map f (take i xs @ drop (Suc i) xs))"
  using distinct_remove_nth [OF assms, of i] by (simp add: take_map drop_map)

lemma remove_nth_image:
  assumes "distinct (map f xs)" "i < length xs"
  shows "set (map f (take i xs @ drop (Suc i) xs)) = set (map f xs) - {f (xs ! i)}"
  using set_remove_nth [OF assms(1), of i] assms(2)
  by (simp add: take_map drop_map del: set_map)

section \<open>The lock invariant\<close>

lemma lock_inv_saveToMinIO: "lock_inv s \<Longrightarrow> lock_inv (saveToMinIO enc n r s)"
  by (auto simp: lock_inv_def saveToMinIO_def issue_def Let_def)

lemma lock_inv_settle:
  assumes "lock_inv s"
  shows "lock_inv (settle i out s)"
proof (cases "i < length (awaiting s)")
  case False
  then show ?thesis using assms by (simp add: settle_def)
next
  case True
  let ?xs = "awaiting s"
  let ?ys = "take i ?xs @ drop (Suc i) ?xs"
  have d: "distinct (map task_doc ?xs)"
    and l: "\<And>n. saveLocks s n = (if n \<in> set (map task_doc ?xs) then Some True else None)"
    using assms by (simp_all add: lock_inv_def)
  have d': "distinct (map task_doc ?ys)"
    using d by (rule remove_nth_distinct)
  have m: "set (map task_doc ?ys) = set (map task_doc ?xs) - {task_doc (?xs ! i)}"
    using d True by (rule remove_nth_image)
  have aw: "awaiting (settle i out s) = ?ys"
    using True by (simp add: settle_def Let_def)
  have lk: "saveLocks (settle i out s) = (saveLocks s)(task_doc (?xs ! i) := None)"
    using True by (simp add: settle_def Let_def)
  show ?thesis
    unfolding lock_inv_def aw lk using d' by (simp only: m) (simp add: l)
qed

lemma fold_debouncedSave_all:
  "saveLocks (fold (\<lambda>n. debouncedSave n r) ns s) = saveLocks s \<and>
   awaiting (fold (\<lambda>n. debouncedSave n r) ns s) = awaiting s \<and>
   bucket (fold (\<lambda>n. debouncedSave n r) ns s) = bucket s \<and>
   requests (fold (\<lambda>n. debouncedSave n r) ns s) = requests s \<and>
   docs (fold (\<lambda>n. debouncedSave n r) ns s) = docs s \<and>
   observers (fold (\<lambda>n. debouncedSave n r) ns s) = observers s \<and>
   now (fold (\<lambda>n. debouncedSave n r) ns s) = now s"
  by (induction ns arbitrary: s) (simp_all add: debouncedSave_fields)

lemma fold_debouncedSave_fields:
  "saveLocks (fold (\<lambda>n. debouncedSave n r) ns s) = saveLocks s"
  "awaiting (fold (\<lambda>n. debouncedSave n r) ns s) = awaiting s"
  "bucket (fold (\<lambda>n. debouncedSave n r) ns s) = bucket s"
  "requests (fold (\<lambda>n. debouncedSave n r) ns s) = requests s"
  "docs (fold (\<lambda>n. debouncedSave n r) ns s) = docs s"
  "observers (fold (\<lambda>n. debouncedSave n r) ns s) = observers s"
  "now (fold (\<lambda>n. debouncedSave n r) ns s) = now s"
  using fold_debouncedSave_all [of r ns s] by simp_all

lemma emit_update_fields:
  "saveLocks (server (emit_update r a)) = saveLocks (server a)"
  "awaiting (server (emit_update r a)) = awaiting (server a)"
  "bucket (server (emit_update r a)) = bucket (server a)"
  "requests (server (emit_update r a)) = requests (server a)"
  "docs (server (emit_update r a)) = docs (server a)"
  "observers (server (emit_update r a)) = observers (server a)"
  "now (server (emit_update r a)) = now (server a)"
  by (simp_all add: emit_update_def on_server_def fold_debouncedSave_fields)

lemma transact_fields:
  "saveLocks (server (transact r f a)) = saveLocks (server a)"
  "awaiting (server (transact r f a)) = awaiting (server a)"
  "bucket (server (transact r f a)) = bucket (server a)"
  "requests (server (transact r f a)) = requests (server a)"
  "observers (server (transact r f a)) = observers (server a)"
  "now (server (transact r f a)) = now (server a)"
  by (simp_all add: transact_def Let_def emit_update_fields on_server_def)

lemma validateFileIndex_fields:
  "saveLocks (server (validateFileIndex stat r a)) = saveLocks (server a)"
  "awaiting (server (validateFileIndex stat r a)) = awaiting (server a)"
  "bucket (server (validateFileIndex stat r a)) = bucket (server a)"
  "observers (server (validateFileIndex stat r a)) = observers (server a)"
  "now (server (validateFileIndex stat r a)) = now (server a)"
  by (simp_all add: validateFileIndex_def Let_def transact_fields on_server_def
      split: prod.splits)

lemma bindState_fields:
  "saveLocks (server (bindState ap n r out stat a)) = saveLocks (server a)"
  "awaiting (server (bindState ap n r out stat a)) = awaiting (server a)"
  "bucket (server (bindState ap n r out stat a)) = bucket (server a)"
  "now (server (bindState ap n r out stat a)) = now (server a)"
  by (simp_all add: bindState_def loadFromMinIO_def Let_def on_server_def
      validateFileIndex_fields transact_fields split: prod.splits option.splits outcome.splits)

lemma lock_inv_cong:
  "saveLocks s' = saveLocks s \<Longrightarrow> awaiting s' = awaiting s \<Longrightarrow> lock_inv s' = lock_inv s"
  by (simp add: lock_inv_def)

lemma lock_inv_fire: "lock_inv s \<Longrightarrow> lock_inv (fire enc h s)"
proof -
  assume inv: "lock_inv s"
  have a: "lock_inv (s\<lparr>timeouts := t\<rparr>)" for t
    using inv by (simp add: lock_inv_def)
  have b: "lock_inv (timer_callback enc n r s')" if "lock_inv s'" for n r s'
    using lock_inv_saveToMinIO [OF that, of enc n r]
    by (simp add: timer_callback_def Let_def lock_inv_def)
  show ?thesis
    using inv by (auto simp: fire_def a b split: option.splits)
qed

lemma lock_inv_exec: "lock_inv (server a) \<Longrightarrow> lock_inv (server (exec enc ap e a))"
proof (cases e)
  case (Update r f)
  assume "lock_inv (server a)"
  then show ?thesis using Update by (simp add: lock_inv_cong [OF transact_fields(1,2)])
next
  case (Tick ms)
  assume "lock_inv (server a)"
  then show ?thesis using Tick by (simp add: on_server_def lock_inv_def)
next
  case (Fire h)
  assume "lock_inv (server a)"
  then show ?thesis using Fire by (simp add: on_server_def lock_inv_fire)
next
  case (WriteState n r)
  assume "lock_inv (server a)"
  then show ?thesis using WriteState
    by (simp add: on_server_def writeState_def lock_inv_saveToMinIO)
next
  case (Settle i out)
  assume "lock_inv (server a)"
  then show ?thesis using Settle by (simp add: on_server_def lock_inv_settle)
next
  case (Bind n r out stat)
  assume "lock_inv (server a)"
  then show ?thesis using Bind by (simp add: lock_inv_cong [OF bindState_fields(1,2)])
qed

lemma lock_inv_run: "lock_inv (server a) \<Longrightarrow> lock_inv (server (run enc ap evs a))"
  unfolding run_def by (induction evs arbitrary: a) (simp_all add: lock_inv_exec)

lemma lock_inv_startup: "lock_inv (server (startup m ds))"
  by (simp add: lock_inv_def startup_def)

section \<open>Nothing is removed from the bucket\<close>

lemma perform_keeps: "\<not> is_remove q \<Longrightarrow> m k \<noteq> None \<Longrightarrow> perform q m k \<noteq> None"
  by (cases q) auto

lemma no_removal_cong:
  "awaiting s' = awaiting s \<Longrightarrow> requests s' = requests s \<Longrightarrow> no_removal s' = no_removal s"
  by (simp add: no_removal_def)

lemma no_removal_saveToMinIO: "no_removal s \<Longrightarrow> no_removal (saveToMinIO enc n r s)"
  by (auto simp: no_removal_def saveToMinIO_def issue_def Let_def)

lemma no_removal_settle: "no_removal s \<Longrightarrow> no_removal (settle i out s)"
  by (auto simp: no_removal_def settle_def Let_def dest: in_set_takeD in_set_dropD)

lemma no_removal_fire: "no_removal s \<Longrightarrow> no_removal (fire enc h s)"
proof -
  assume inv: "no_removal s"
  have a: "no_removal (s\<lparr>timeouts := t\<rparr>)" for t
    using inv by (simp add: no_removal_def)
  have b: "no_removal (timer_callback enc n r s')" if "no_removal s'" for n r s'
    using no_removal_saveToMinIO [OF that, of enc n r]
    by (simp add: timer_callback_def Let_def no_removal_def)
  show ?thesis
    using inv by (auto simp: fire_def a b split: option.splits)
qed

lemma no_removal_requests:
  "no_removal s \<Longrightarrow> \<forall>q \<in> set qs. \<not> is_remove q \<Longrightarrow>
   no_removal (s\<lparr>requests := requests s @ qs\<rparr>)"
  by (auto simp: no_removal_def)

lemma no_removal_validateFileIndex:
  "no_removal (server a) \<Longrightarrow> no_removal (server (validateFileIndex stat r a))"
proof -
  assume inv: "no_removal (server a)"
  obtain del checked where sc:
    "scan stat (files (docs (server a) r)) (map fst (files (docs (server a) r))) ([], []) = (del, checked)"
    by (cases "scan stat (files (docs (server a) r)) (map fst (files (docs (server a) r))) ([], [])")
  let ?asked = "map (\<lambda>c. StatObject (minioKey (fst c))) checked"
  let ?a1 = "on_server (\<lambda>s. s\<lparr>requests := requests s @ ?asked\<rparr>) a"
  have a1: "no_removal (server ?a1)"
    using no_removal_requests [OF inv, of ?asked]
    by (simp add: on_server_def)
  have "no_removal (server (transact r f ?a1))" for f
    using a1 by (simp add: no_removal_cong [OF transact_fields(2,4)])
  then show ?thesis
    using a1 sc by (simp add: validateFileIndex_def Let_def)
qed

lemma no_removal_bindState:
  "no_removal (server a) \<Longrightarrow> no_removal (server (bindState ap n r out stat a))"
proof -
  assume inv: "no_removal (server a)"
  let ?s1 = "(server a)\<lparr>requests := requests (server a) @ [GetObject (object_key n)]\<rparr>"
  let ?a1 = "a\<lparr>server := ?s1\<rparr>"
  let ?data = "case out of Resolved \<Rightarrow> bucket (server a) (object_key n) | Rejected code \<Rightarrow> None"
  let ?a2 = "case ?data of Some b \<Rightarrow> transact r (ap b) ?a1 | None \<Rightarrow> ?a1"
  let ?a3 = "if n = file_index_name then validateFileIndex stat r ?a2 else ?a2"
  have a1: "no_removal (server ?a1)"
    using no_removal_requests [OF inv, of "[GetObject (object_key n)]"] by simp
  have "no_removal (server (transact r f ?a1))" for f
    using a1 by (simp add: no_removal_cong [OF transact_fields(2,4)])
  then have a2: "no_removal (server ?a2)"
    using a1 by (cases ?data) simp_all
  have a3: "no_removal (server ?a3)"
    using a2 by (simp add: no_removal_validateFileIndex)
  have obs: "no_removal (server (on_server (\<lambda>s. s\<lparr>observers := g s\<rparr>) b))"
    if "no_removal (server b)" for b g
    using that by (simp add: on_server_def no_removal_def)
  have "bindState ap n r out stat a =
        on_server (\<lambda>s. s\<lparr>observers := (observers s)(r := observers s r @ [n])\<rparr>) ?a3"
    by (simp add: bindState_def loadFromMinIO_def Let_def)
  then show ?thesis using obs [OF a3] by simp
qed

lemma no_removal_exec: "no_removal (server a) \<Longrightarrow> no_removal (server (exec enc ap e a))"
proof (cases e)
  case (Update r f)
  assume "no_removal (server a)"
  then show ?thesis using Update by (simp add: no_removal_cong [OF transact_fields(2,4)])
next
  case (Tick ms)
  assume "no_removal (server a)"
  then show ?thesis using Tick by (simp add: on_server_def no_removal_def)
next
  case (Fire h)
  assume "no_removal (server a)"
  then show ?thesis using Fire by (simp add: on_server_def no_removal_fire)
next
  case (WriteState n r)
  assume "no_removal (server a)"
  then show ?thesis using WriteState
    by (simp add: on_server_def writeState_def no_removal_saveToMinIO)
next
  case (Settle i out)
  assume "no_removal (server a)"
  then show ?thesis using Settle by (simp add: on_server_def no_removal_settle)
next
  case (Bind n r out stat)
  assume "no_removal (server a)"
  then show ?thesis using Bind by (simp add: no_removal_bindState)
qed

lemma no_removal_run: "no_removal (server a) \<Longrightarrow> no_removal (server (run enc ap evs a))"
  unfolding run_def by (induction evs arbitrary: a) (simp_all add: no_removal_exec)

lemma no_removal_startup: "no_removal (server (startup m ds))"
  by (simp add: no_removal_def startup_def)

lemma bucket_fire: "bucket (fire enc h s) = bucket s"
  by (simp add: fire_def timer_callback_def saveToMinIO_def issue_def Let_def
      split: option.splits)

lemma bucket_settle_keeps:
  assumes "no_removal s" "bucket s k \<noteq> None"
  shows "bucket (settle i out s) k \<noteq> None"
proof (cases "i < length (awaiting s)")
  case False
  then show ?thesis using assms by (simp add: settle_def)
next
  case True
  then have "\<not> is_remove (task_req (awaiting s ! i))"
    using assms(1) by (simp add: no_removal_def)
  then have "perform (task_req (awaiting s ! i)) (bucket s) k \<noteq> None"
    using assms(2) by (rule perform_keeps)
  then show ?thesis
    using True assms(2) by (cases out) (simp_all add: settle_def Let_def del: not_None_eq)
qed

lemma bucket_exec_keeps:
  assumes "no_removal (server a)" "bucket (server a) k \<noteq> None"
  shows "bucket (server (exec enc ap e a)) k \<noteq> None"
proof (cases e)
  case (Update r f)
  then show ?thesis using assms by (simp add: transact_fields)
next
  case (Tick ms)
  then show ?thesis using assms by (simp add: on_server_def)
next
  case (Fire h)
  then show ?thesis using assms by (simp add: on_server_def bucket_fire)
next
  case (WriteState n r)
  then show ?thesis using assms
    by (simp add: on_server_def writeState_def saveToMinIO_def issue_def Let_def)
next
  case (Settle i out)
  then show ?thesis using assms by (simp add: on_server_def bucket_settle_keeps)
next
  case (Bind n r out stat)
  then show ?thesis using assms by (simp add: bindState_fields)
qed

lemma bucket_run_keeps:
  "no_removal (server a) \<Longrightarrow> bucket (server a) k \<noteq> None \<Longrightarrow>
   bucket (server (run enc ap evs a)) k \<noteq> None"
proof (induction evs arbitrary: a)
  case Nil
  then show ?case by (simp add: run_def)
next
  case (Cons e evs)
  have "no_removal (server (exec enc ap e a))"
    using Cons.prems(1) by (rule no_removal_exec)
  moreover have "bucket (server (exec enc ap e a)) k \<noteq> None"
    using Cons.prems by (rule bucket_exec_keeps)
  ultimately have "bucket (server (run enc ap evs (exec enc ap e a))) k \<noteq> None"
    by (rule Cons.IH)
  then show ?case by (simp add: run_def)
qed

lemma run_append: "run enc ap (evs @ evs') a = run enc ap evs' (run enc ap evs a)"
  by (simp add: run_def)

section \<open>Mutual exclusion of saves\<close>

lemma filter_le_one: "distinct (map f xs) \<Longrightarrow> length (filter (\<lambda>x. f x = n) xs) \<le> 1"
proof (induction xs)
  case Nil
  then show ?case by simp
next
  case (Cons x xs)
  show ?case
  proof (cases "f x = n")
    case True
    have "f x \<notin> f ` set xs" using Cons.prems by simp
    then have "\<forall>y \<in> set xs. f y \<noteq> n" unfolding True [symmetric] by (metis imageI)
    then have "filter (\<lambda>x. f x = n) xs = []" by (simp add: filter_empty_conv)
    then show ?thesis using True by simp
  next
    case False
    then show ?thesis using Cons by simp
  qed
qed

lemma nth_task_gone:
  assumes "distinct (map f xs)" "i < length xs"
  shows "f (xs ! i) \<notin> set (map f (take i xs @ drop (Suc i) xs))"
  using remove_nth_image [OF assms] by simp

text \<open>
  C8. In every state the process can reach from start-up, and for every document name,
  at most one save is suspended at its await (so at most one save executes at any
  instant), the name has no entry in \<open>saveLocks\<close> exactly when no save for it is in
  flight, and when the store call of a save settles, resolved or rejected, the entry of
  its name is gone and no save for that name remains in flight.
\<close>

theorem save_lock_mutual_exclusion:
  assumes "s = server (run enc applyUpdate evs (startup m ds))"
  shows "length (filter (\<lambda>t. task_doc t = docName) (awaiting s)) \<le> 1
       \<and> (saveLocks s docName = None \<longleftrightarrow> docName \<notin> task_doc ` set (awaiting s))
       \<and> (i < length (awaiting s) \<longrightarrow>
            saveLocks (settle i out s) (task_doc (awaiting s ! i)) = None
          \<and> task_doc (awaiting s ! i) \<notin> task_doc ` set (awaiting (settle i out s)))"
proof -
  have inv: "lock_inv s"
    unfolding assms using lock_inv_startup by (rule lock_inv_run)
  then have d: "distinct (map task_doc (awaiting s))"
    and l: "\<And>n. saveLocks s n = (if n \<in> set (map task_doc (awaiting s)) then Some True else None)"
    by (simp_all add: lock_inv_def)
  have one: "length (filter (\<lambda>t. task_doc t = docName) (awaiting s)) \<le> 1"
    using d by (rule filter_le_one)
  have two: "saveLocks s docName = None \<longleftrightarrow> docName \<notin> task_doc ` set (awaiting s)"
    by (simp add: l)
  have three: "saveLocks (settle i out s) (task_doc (awaiting s ! i)) = None
          \<and> task_doc (awaiting s ! i) \<notin> task_doc ` set (awaiting (settle i out s))"
    if i: "i < length (awaiting s)"
    using i nth_task_gone [OF d i] by (auto simp: settle_def Let_def)
  show ?thesis using one two three by blast
qed

lemma demo_busy_eval:
  "awaiting demo_busy = [\<lparr>task_doc = demo_name, task_req = PutObject (object_key demo_name) (str ''v1'')\<rparr>]"
  "saveLocks demo_busy demo_name = Some True"
  by (simp_all add: demo_busy_def demo_start_def run_def on_server_def writeState_def
      saveToMinIO_def issue_def startup_def Let_def demo_heap_def demo_doc_def)

theorem save_lock_mutual_exclusion_witness:
  "demo_busy = server (run content keep_doc [WriteState demo_name 0] (startup Map.empty demo_heap))
   \<and> 0 < length (awaiting demo_busy)
   \<and> saveLocks (settle 0 (Rejected None) demo_busy) demo_name = None
   \<and> demo_name \<notin> task_doc ` set (awaiting (settle 0 (Rejected None) demo_busy))
   \<and> length (filter (\<lambda>t. task_doc t = demo_name) (awaiting demo_busy)) \<le> 1"
  using save_lock_mutual_exclusion [of demo_busy content keep_doc "[WriteState demo_name 0]"
      Map.empty demo_heap demo_name 0 "Rejected None"]
  by (simp add: demo_busy_eval) (simp add: demo_busy_def demo_start_def)

text \<open>
  C7. In every reachable state, if a save for document \<open>D\<close> is in flight, a second call
  of \<open>saveToMinIO\<close> for \<open>D\<close> returns the state as it was: no call on the store, no
  change to the locks, the timers, the bucket or anything else, and no exception (the
  call has no failing branch).
\<close>

theorem second_save_is_noop:
  assumes "s = server (run enc applyUpdate evs (startup m ds))"
    and "D \<in> task_doc ` set (awaiting s)"
  shows "saveToMinIO enc D r s = s"
proof -
  have "lock_inv s"
    unfolding assms(1) using lock_inv_startup by (rule lock_inv_run)
  then have "saveLocks s D = Some True"
    using assms(2) by (simp add: lock_inv_def)
  then show ?thesis by (simp add: saveToMinIO_def)
qed

theorem second_save_is_noop_witness:
  "demo_busy = server (run content keep_doc [WriteState demo_name 0] (startup Map.empty demo_heap))
   \<and> demo_name \<in> task_doc ` set (awaiting demo_busy)
   \<and> saveToMinIO content demo_name 0 demo_busy = demo_busy"
  using second_save_is_noop [of demo_busy content keep_doc "[WriteState demo_name 0]"
      Map.empty demo_heap demo_name 0]
  by (simp add: demo_busy_eval) (simp add: demo_busy_def demo_start_def)

section \<open>Persisted objects are never deleted\<close>

text \<open>
  C2. In every state reachable from start-up (index.js), an object that exists in the
  bucket still exists after any further sequence of events of this program: client
  updates and the debounced saves they schedule, timers firing, \<open>writeState\<close>,
  \<open>bindState\<close> with its reconciliation, and store calls settling. No \<open>removeObject\<close>
  call is ever made or in flight: a save only puts an object.
\<close>

theorem persisted_objects_never_deleted:
  assumes "a = run enc applyUpdate evs (startup m ds)"
    and "bucket (server a) k \<noteq> None"
  shows "bucket (server (run enc applyUpdate evs' a)) k \<noteq> None
       \<and> (\<forall>q \<in> set (requests (server (run enc applyUpdate evs' a))). \<not> is_remove q)
       \<and> (\<forall>t \<in> set (awaiting (server (run enc applyUpdate evs' a))). \<not> is_remove (task_req t))"
proof -
  have inv: "no_removal (server a)"
    unfolding assms(1) using no_removal_startup by (rule no_removal_run)
  have "bucket (server (run enc applyUpdate evs' a)) k \<noteq> None"
    using inv assms(2) by (rule bucket_run_keeps)
  moreover have "no_removal (server (run enc applyUpdate evs' a))"
    using inv by (rule no_removal_run)
  ultimately show ?thesis by (simp add: no_removal_def del: not_None_eq)
qed

lemma demo_saved_eval:
  "bucket (server demo_saved) (object_key demo_name) = Some (str ''v1'')"
  by (simp add: demo_saved_def demo_start_def run_def on_server_def writeState_def
      saveToMinIO_def issue_def settle_def startup_def Let_def demo_heap_def demo_doc_def)

theorem persisted_objects_never_deleted_witness:
  "demo_saved = run content keep_doc [WriteState demo_name 0, Settle 0 Resolved]
                  (startup Map.empty demo_heap)
   \<and> bucket (server demo_saved) (object_key demo_name) \<noteq> None
   \<and> bucket (server (run content keep_doc demo_later demo_saved)) (object_key demo_name) \<noteq> None"
  using persisted_objects_never_deleted [of demo_saved content keep_doc
      "[WriteState demo_name 0, Settle 0 Resolved]" Map.empty demo_heap "object_key demo_name"
      demo_later]
  by (simp add: demo_saved_eval del: not_None_eq) (simp add: demo_saved_def demo_start_def)

section \<open>writeState\<close>

lemma demo_edited_eval:
  "saveLocks demo_edited demo_name = Some True"
  "content (docs demo_edited 0) = str ''v2''"
  by (simp_all add: demo_edited_def demo_start_def run_def on_server_def writeState_def
      saveToMinIO_def issue_def startup_def Let_def demo_heap_def demo_doc_def
      transact_def emit_update_def edit_def str_def)

text \<open>
  C1, as stated, fails: a first \<open>writeState\<close> is in flight with the snapshot \<open>v1\<close>,
  the document is edited to \<open>v2\<close>, and a second \<open>writeState\<close> is called. The second
  call returns the state unchanged; after the first call's \<open>putObject\<close> resolves the lock
  is free, nothing is in flight or scheduled, and the bucket holds \<open>v1\<close>, not the
  current state \<open>v2\<close>.
\<close>

theorem writeState_in_flight_counterexample:
  "saveLocks demo_edited demo_name = Some True
   \<and> writeState content demo_name 0 demo_edited = demo_edited
   \<and> demo_flushed = settle 0 Resolved (writeState content demo_name 0 demo_edited)
   \<and> saveLocks demo_flushed demo_name = None
   \<and> awaiting demo_flushed = []
   \<and> saveTimers demo_flushed demo_name = None
   \<and> content (docs demo_flushed 0) = str ''v2''
   \<and> bucket demo_flushed (object_key demo_name) = Some (str ''v1'')
   \<and> bucket demo_flushed (object_key demo_name) \<noteq> Some (content (docs demo_flushed 0))"
proof -
  have w: "writeState content demo_name 0 demo_edited = demo_edited"
    by (simp add: writeState_def saveToMinIO_def demo_edited_eval)
  have f: "demo_flushed = settle 0 Resolved (writeState content demo_name 0 demo_edited)"
    by (simp add: demo_flushed_def demo_flush_def demo_edited_def run_def on_server_def)
  have e: "demo_flushed = settle 0 Resolved demo_edited"
    using f w by simp
  show ?thesis
    unfolding e
    apply (simp add: w demo_edited_eval)
    apply (simp add: demo_edited_def demo_start_def run_def on_server_def writeState_def
      saveToMinIO_def issue_def startup_def Let_def demo_heap_def demo_doc_def
      transact_def emit_update_def edit_def str_def settle_def)
    done
qed

text \<open>
  C1, amended. In every reachable state, \<open>writeState\<close> calls \<open>saveToMinIO\<close> at once
  and leaves the debounce timers alone. When no save for the name is in flight, it
  takes a snapshot of the document as it is and issues one \<open>putObject\<close> for it, and
  when that call resolves the bucket holds that snapshot under the document's key. When
  a save for the name is in flight, \<open>writeState\<close> returns without any effect.
\<close>

theorem writeState_immediate_save:
  assumes "s = server (run enc applyUpdate evs (startup m ds))"
  shows "(docName \<notin> task_doc ` set (awaiting s) \<longrightarrow>
            requests (writeState enc docName r s)
              = requests s @ [PutObject (object_key docName) (enc (docs s r))]
          \<and> awaiting (writeState enc docName r s)
              = awaiting s @ [\<lparr>task_doc = docName,
                                task_req = PutObject (object_key docName) (enc (docs s r))\<rparr>]
          \<and> timeouts (writeState enc docName r s) = timeouts s
          \<and> saveTimers (writeState enc docName r s) = saveTimers s
          \<and> bucket (settle (length (awaiting s)) Resolved (writeState enc docName r s))
                (object_key docName) = Some (enc (docs s r)))
       \<and> (docName \<in> task_doc ` set (awaiting s) \<longrightarrow> writeState enc docName r s = s)"
proof -
  have "lock_inv s"
    unfolding assms using lock_inv_startup by (rule lock_inv_run)
  then have l: "saveLocks s docName
                  = (if docName \<in> task_doc ` set (awaiting s) then Some True else None)"
    by (simp add: lock_inv_def)
  show ?thesis
    by (simp add: l writeState_def saveToMinIO_def issue_def settle_def Let_def nth_append)
qed

lemma demo_edited_flight: "demo_name \<in> task_doc ` set (awaiting demo_edited)"
  by (simp add: demo_edited_def demo_start_def run_def on_server_def writeState_def
      saveToMinIO_def issue_def startup_def Let_def demo_heap_def demo_doc_def
      transact_def emit_update_def edit_def str_def)

theorem writeState_immediate_save_witness:
  "server demo_start = server (run content keep_doc [] (startup Map.empty demo_heap))
   \<and> demo_name \<notin> task_doc ` set (awaiting (server demo_start))
   \<and> requests (writeState content demo_name 0 (server demo_start))
        = [PutObject (object_key demo_name) (str ''v1'')]
   \<and> bucket (settle 0 Resolved (writeState content demo_name 0 (server demo_start)))
        (object_key demo_name) = Some (str ''v1'')
   \<and> demo_edited = server (run content keep_doc [WriteState demo_name 0, Update 0 edit]
                       (startup Map.empty demo_heap))
   \<and> demo_name \<in> task_doc ` set (awaiting demo_edited)
   \<and> writeState content demo_name 0 demo_edited = demo_edited"
proof -
  have a: "server demo_start = server (run content keep_doc [] (startup Map.empty demo_heap))"
    by (simp add: demo_start_def run_def)
  have b: "demo_edited = server (run content keep_doc [WriteState demo_name 0, Update 0 edit]
                       (startup Map.empty demo_heap))"
    by (simp add: demo_edited_def demo_start_def)
  have c: "demo_name \<notin> task_doc ` set (awaiting (server demo_start))"
    "requests (server demo_start) = []" "awaiting (server demo_start) = []"
    "docs (server demo_start) 0 = demo_doc"
    by (simp_all add: demo_start_def startup_def demo_heap_def)
  show ?thesis
    using writeState_immediate_save [OF a, of demo_name 0]
      writeState_immediate_save [OF b, of demo_name 0] a b c demo_edited_flight
    by (simp add: demo_doc_def)
qed

section \<open>The variant that deletes empty documents\<close>

lemma part000_removes_empty_documents:
  "saveLocks s docName \<noteq> Some True \<Longrightarrow> content (docs s r) = [] \<Longrightarrow>
   docName \<noteq> file_index_name \<Longrightarrow>
   requests (saveToMinIO_part000 enc docName r s) = requests s @ [RemoveObject (object_key docName)]"
  by (simp add: saveToMinIO_part000_def issue_def Let_def)

text \<open>
  C10, as stated, fails while a save of the index is in flight: a second call of the
  variant's \<open>saveToMinIO\<close> for \<open>__file_index__\<close> returns the state as it was and
  writes nothing.
\<close>

theorem file_index_save_skipped_counterexample:
  "content (docs index_busy 0) = []
   \<and> awaiting index_busy
       = [\<lparr>task_doc = file_index_name, task_req = PutObject (object_key file_index_name) [7]\<rparr>]
   \<and> saveToMinIO_part000 crdt file_index_name 0 index_busy = index_busy
   \<and> requests (saveToMinIO_part000 crdt file_index_name 0 index_busy) = requests index_busy"
proof -
  have "saveLocks index_busy file_index_name = Some True"
    by (simp add: index_busy_def saveToMinIO_part000_def issue_def Let_def)
  then have "saveToMinIO_part000 crdt file_index_name 0 index_busy = index_busy"
    by (simp add: saveToMinIO_part000_def)
  then show ?thesis
    by (simp add: index_busy_def saveToMinIO_part000_def issue_def Let_def startup_def
        index_heap_def index_doc_def)
qed

text \<open>
  C10, amended. In the variant of src/unnamed/part_000, \<open>saveToMinIO\<close> for the document
  \<open>__file_index__\<close> never calls \<open>removeObject\<close>, whatever the document holds (also
  with an empty \<open>content\<close> text). Unless the lock is held, when the call is skipped, the
  one call it makes is the \<open>putObject\<close> of the snapshot; when that call resolves the
  bucket holds the snapshot, and when it is rejected the object is as it was.
\<close>

theorem file_index_exempt_from_deletion:
  "requests (saveToMinIO_part000 enc file_index_name r s)
     = (if saveLocks s file_index_name = Some True then requests s
        else requests s @ [PutObject (object_key file_index_name) (enc (docs s r))])
   \<and> awaiting (saveToMinIO_part000 enc file_index_name r s)
     = (if saveLocks s file_index_name = Some True then awaiting s
        else awaiting s @ [\<lparr>task_doc = file_index_name,
               task_req = PutObject (object_key file_index_name) (enc (docs s r))\<rparr>])
   \<and> (saveLocks s file_index_name \<noteq> Some True \<longrightarrow>
        bucket (settle (length (awaiting s)) Resolved
                 (saveToMinIO_part000 enc file_index_name r s)) (object_key file_index_name)
          = Some (enc (docs s r))
      \<and> bucket (settle (length (awaiting s)) (Rejected code)
                 (saveToMinIO_part000 enc file_index_name r s)) (object_key file_index_name)
          = bucket s (object_key file_index_name))"
  by (simp add: saveToMinIO_part000_def issue_def settle_def Let_def nth_append)

theorem file_index_exempt_from_deletion_witness:
  "content (docs (server (startup Map.empty index_heap)) 0) = []
   \<and> saveLocks (server (startup Map.empty index_heap)) file_index_name \<noteq> Some True
   \<and> requests (saveToMinIO_part000 crdt file_index_name 0 (server (startup Map.empty index_heap)))
        = [PutObject (object_key file_index_name) [7]]
   \<and> bucket (settle 0 Resolved
        (saveToMinIO_part000 crdt file_index_name 0 (server (startup Map.empty index_heap))))
        (object_key file_index_name) = Some [7]"
  using file_index_exempt_from_deletion
    [of crdt 0 "server (startup Map.empty index_heap)" None]
  by (simp add: startup_def index_heap_def index_doc_def)

section \<open>Timers of other documents\<close>

lemma object_key_inj: "object_key m = object_key n \<longleftrightarrow> m = n"
  by (simp add: object_key_def)

lemma view_timer:
  assumes "view n s' = view n s"
  shows "timer_of n (timeouts s' h) = timer_of n (timeouts s h)"
proof -
  have "(\<lambda>h. timer_of n (timeouts s' h)) = (\<lambda>h. timer_of n (timeouts s h))"
    using assms by (simp add: view_def)
  then show ?thesis by (rule fun_cong)
qed

lemma view_fields:
  assumes "view n s' = view n s"
  shows "saveLocks s' n = saveLocks s n" "saveTimers s' n = saveTimers s n"
    "now s' = now s" "docs s' = docs s" "next_timeout s' = next_timeout s"
    "filter (writes_to (object_key n)) (requests s') = filter (writes_to (object_key n)) (requests s)"
  using assms by (simp_all add: view_def)

lemma quiet_view:
  assumes "view n s' = view n s"
  shows "quiet n s' h = quiet n s h"
  unfolding quiet_def view_fields(3) [OF assms] view_timer [OF assms] by (rule refl)

lemma saveToMinIO_other_view:
  assumes "m \<noteq> n"
  shows "view n (saveToMinIO enc m r s) = view n s"
  using assms by (simp add: view_def saveToMinIO_def issue_def Let_def object_key_inj)

lemma fire_quiet_view:
  assumes "quiet n s h"
  shows "view n (fire enc h s) = view n s"
proof (cases "timeouts s h")
  case None
  then show ?thesis by (simp add: fire_def)
next
  case (Some t)
  obtain due m r where t: "t = (due, m, r)" by (cases t)
  show ?thesis
  proof (cases "due \<le> now s")
    case False
    then show ?thesis using Some t by (simp add: fire_def)
  next
    case True
    then have mn: "m \<noteq> n"
      using assms Some t by (auto simp: quiet_def timer_of_def)
    let ?s1 = "s\<lparr>timeouts := (timeouts s)(h := None)\<rparr>"
    have a: "view n ?s1 = view n s"
      using Some t mn by (auto simp: view_def timer_of_def)
    have b: "view n (timer_callback enc m r ?s1) = view n (saveToMinIO enc m r ?s1)"
      using mn by (simp add: timer_callback_def Let_def view_def)
    have "fire enc h s = timer_callback enc m r ?s1"
      using Some t True by (simp add: fire_def)
    then show ?thesis
      using a b saveToMinIO_other_view [OF mn, of enc r ?s1] by simp
  qed
qed

lemma fold_fire_quiet_view:
  "\<forall>h \<in> set hs. quiet n s h \<Longrightarrow> view n (fold (fire enc) hs s) = view n s"
proof (induction hs arbitrary: s)
  case Nil
  then show ?case by simp
next
  case (Cons h hs)
  have v: "view n (fire enc h s) = view n s"
    using Cons.prems by (simp add: fire_quiet_view)
  have "\<forall>h' \<in> set hs. quiet n (fire enc h s) h'"
    using Cons.prems by (simp add: quiet_view [OF v])
  then have "view n (fold (fire enc) hs (fire enc h s)) = view n (fire enc h s)"
    by (rule Cons.IH)
  then show ?case using v by simp
qed

lemma debouncedSave_view:
  assumes one: "\<forall>h. timer_of n (timeouts s h) \<noteq> None \<longrightarrow> saveTimers s n = Some h"
    and fresh: "\<forall>h. saveTimers s n = Some h \<longrightarrow> h \<noteq> next_timeout s"
  shows "timer_of n (timeouts (debouncedSave n r s) h)
           = (if h = next_timeout s then Some (now s + SAVE_DEBOUNCE_MS, r) else None)"
    and "saveTimers (debouncedSave n r s) n = Some (next_timeout s)"
    and "next_timeout (debouncedSave n r s) = Suc (next_timeout s)"
proof -
  show "saveTimers (debouncedSave n r s) n = Some (next_timeout s)"
    by (simp add: debouncedSave_def setTimeout_def clearTimeout_def Let_def split: option.splits)
  show "next_timeout (debouncedSave n r s) = Suc (next_timeout s)"
    by (simp add: debouncedSave_def setTimeout_def clearTimeout_def Let_def split: option.splits)
  show "timer_of n (timeouts (debouncedSave n r s) h)
           = (if h = next_timeout s then Some (now s + SAVE_DEBOUNCE_MS, r) else None)"
  proof (cases "saveTimers s n")
    case None
    have "timer_of n (timeouts s h) = None"
    proof (rule ccontr)
      assume "timer_of n (timeouts s h) \<noteq> None"
      then have "saveTimers s n = Some h" using one by blast
      then show False using None by simp
    qed
    then show ?thesis using None
      by (simp add: debouncedSave_def setTimeout_def Let_def timer_of_def)
  next
    case (Some h0)
    have "timer_of n (timeouts s h) = None" if "h \<noteq> h0"
    proof (rule ccontr)
      assume "timer_of n (timeouts s h) \<noteq> None"
      then have "saveTimers s n = Some h" using one by blast
      then show False using Some that by simp
    qed
    moreover have "h0 \<noteq> next_timeout s" using fresh Some by simp
    ultimately show ?thesis using Some
      by (auto simp: debouncedSave_def setTimeout_def clearTimeout_def Let_def timer_of_def)
  qed
qed

lemma timer_of_Some: "timer_of n t = Some (due, r) \<longleftrightarrow> t = Some (due, n, r)"
  by (auto simp: timer_of_def split: option.splits)

lemma timers_inv_one:
  "timers_inv s \<Longrightarrow> \<forall>h. timer_of n (timeouts s h) \<noteq> None \<longrightarrow> saveTimers s n = Some h"
  by (auto simp: timers_inv_def timer_of_def split: option.splits if_splits)

lemma timers_inv_fresh:
  "timers_inv s \<Longrightarrow> \<forall>h. saveTimers s n = Some h \<longrightarrow> h \<noteq> next_timeout s"
  by (auto simp: timers_inv_def)

lemma fire_due_requests:
  assumes "timeouts s h = Some (due, n, r)" "due \<le> now s"
  shows "requests (fire enc h s)
           = (if saveLocks s n = Some True then requests s
              else requests s @ [PutObject (object_key n) (enc (docs s r))])"
  using assms by (simp add: fire_def timer_callback_def saveToMinIO_def issue_def Let_def)

lemma burst_writes:
  assumes inv: "timers_inv s0" and d: "d < SAVE_DEBOUNCE_MS"
  shows "filter (writes_to (object_key n)) (requests (burst enc n r d ds e s0))
           = filter (writes_to (object_key n)) (requests s0)
             @ (if SAVE_DEBOUNCE_MS \<le> e \<and> saveLocks s0 n \<noteq> Some True
                then [PutObject (object_key n) (enc (ds r))] else [])"
proof -
  define h1 where "h1 = next_timeout s0"
  define s1 where "s1 = debouncedSave n r s0"
  define s1' where "s1' = s1\<lparr>now := now s1 + d\<rparr>"
  define s2 where "s2 = run_timers enc s1'"
  define s2' where "s2' = s2\<lparr>docs := ds\<rparr>"
  define s3 where "s3 = debouncedSave n r s2'"
  define s3' where "s3' = s3\<lparr>now := now s3 + e\<rparr>"
  define s4 where "s4 = fold (fire enc) [0..<Suc h1] s3'"
  let ?W = "\<lambda>s. filter (writes_to (object_key n)) (requests s)"
  have b: "burst enc n r d ds e s0 = run_timers enc s3'"
    by (simp add: burst_def Let_def s1_def s1'_def s2_def s2'_def s3_def s3'_def)
  \<comment> \<open>the first schedule\<close>
  have t1: "timer_of n (timeouts s1 h)
              = (if h = h1 then Some (now s0 + SAVE_DEBOUNCE_MS, r) else None)" for h
    unfolding s1_def h1_def
    using timers_inv_one [OF inv] timers_inv_fresh [OF inv] by (rule debouncedSave_view(1))
  have st1: "saveTimers s1 n = Some h1"
    unfolding s1_def h1_def
    using timers_inv_one [OF inv] timers_inv_fresh [OF inv] by (rule debouncedSave_view(2))
  have nt1: "next_timeout s1 = Suc h1"
    unfolding s1_def h1_def
    using timers_inv_one [OF inv] timers_inv_fresh [OF inv] by (rule debouncedSave_view(3))
  have f1: "saveLocks s1 = saveLocks s0" "requests s1 = requests s0" "now s1 = now s0"
    by (simp_all add: s1_def debouncedSave_fields)
  \<comment> \<open>time passes, less than the window\<close>
  have q1: "\<forall>h \<in> set [0..<next_timeout s1']. quiet n s1' h"
    using d by (simp add: quiet_def s1'_def t1 f1)
  have v2: "view n s2 = view n s1'"
    unfolding s2_def run_timers_def using q1 by (rule fold_fire_quiet_view)
  have t2: "timer_of n (timeouts s2' h)
              = (if h = h1 then Some (now s0 + SAVE_DEBOUNCE_MS, r) else None)" for h
    using view_timer [OF v2, of h] by (simp add: s2'_def s1'_def t1)
  have f2: "saveTimers s2' n = Some h1" "next_timeout s2' = Suc h1" "now s2' = now s0 + d"
    "saveLocks s2' n = saveLocks s0 n" "?W s2' = ?W s0" "docs s2' = ds"
    using view_fields [OF v2] by (simp_all add: s2'_def s1'_def st1 nt1 f1)
  \<comment> \<open>the second schedule\<close>
  have one2: "\<forall>h. timer_of n (timeouts s2' h) \<noteq> None \<longrightarrow> saveTimers s2' n = Some h"
    by (simp add: t2 f2)
  have fresh2: "\<forall>h. saveTimers s2' n = Some h \<longrightarrow> h \<noteq> next_timeout s2'"
    by (simp add: f2)
  have t3: "timer_of n (timeouts s3 h)
              = (if h = Suc h1 then Some (now s0 + d + SAVE_DEBOUNCE_MS, r) else None)" for h
    using debouncedSave_view(1) [OF one2 fresh2, of r h] by (simp add: s3_def f2)
  have nt3: "next_timeout s3 = Suc (Suc h1)"
    using debouncedSave_view(3) [OF one2 fresh2, of r] by (simp add: s3_def f2)
  have f3: "saveLocks s3' n = saveLocks s0 n" "?W s3' = ?W s0" "docs s3' = ds"
    "now s3' = now s0 + d + e"
    by (simp_all add: s3'_def s3_def debouncedSave_fields f2)
  \<comment> \<open>the timers that fall due before the new one\<close>
  have q3: "\<forall>h \<in> set [0..<Suc h1]. quiet n s3' h"
    by (simp add: quiet_def s3'_def t3)
  have v4: "view n s4 = view n s3'"
    unfolding s4_def using q3 by (rule fold_fire_quiet_view)
  have r4: "run_timers enc s3' = fire enc (Suc h1) s4"
    by (simp add: run_timers_def s3'_def nt3 s4_def)
  have t4: "timeouts s4 (Suc h1) = Some (now s0 + d + SAVE_DEBOUNCE_MS, n, r)"
    using view_timer [OF v4, of "Suc h1"] by (simp add: s3'_def t3 timer_of_Some)
  have f4: "saveLocks s4 n = saveLocks s0 n" "?W s4 = ?W s0" "docs s4 = ds"
    "now s4 = now s0 + d + e"
    using view_fields [OF v4] by (simp_all add: f3)
  show ?thesis
  proof (cases "SAVE_DEBOUNCE_MS \<le> e")
    case True
    then have "now s0 + d + SAVE_DEBOUNCE_MS \<le> now s4" by (simp add: f4)
    with t4 have "requests (fire enc (Suc h1) s4)
           = (if saveLocks s4 n = Some True then requests s4
              else requests s4 @ [PutObject (object_key n) (enc (docs s4 r))])"
      by (rule fire_due_requests)
    then show ?thesis using True by (simp add: b r4 f4)
  next
    case False
    then have "quiet n s4 (Suc h1)"
      by (simp add: quiet_def t4 timer_of_def f4)
    then have "view n (fire enc (Suc h1) s4) = view n s4"
      by (rule fire_quiet_view)
    then have "?W (fire enc (Suc h1) s4) = ?W s4"
      by (rule view_fields(6))
    then show ?thesis using False by (simp add: b r4 f4)
  qed
qed

section \<open>The timer invariant\<close>

lemma timers_inv_debouncedSave:
  assumes "timers_inv s"
  shows "timers_inv (debouncedSave n r s)"
proof -
  have one: "\<And>h due m r'. timeouts s h = Some (due, m, r') \<Longrightarrow> saveTimers s m = Some h"
    and bound: "\<And>m h. saveTimers s m = Some h \<Longrightarrow> h < next_timeout s"
    using assms by (auto simp: timers_inv_def)
  let ?s' = "debouncedSave n r s"
  have tm: "timeouts ?s' h =
      (if h = next_timeout s then Some (now s + SAVE_DEBOUNCE_MS, n, r)
       else if saveTimers s n = Some h then None else timeouts s h)" for h
    by (auto simp: debouncedSave_def setTimeout_def clearTimeout_def Let_def split: option.splits)
  have st: "saveTimers ?s' = (saveTimers s)(n \<mapsto> next_timeout s)"
    by (simp add: debouncedSave_def setTimeout_def clearTimeout_def Let_def split: option.splits)
  have nt: "next_timeout ?s' = Suc (next_timeout s)"
    by (simp add: debouncedSave_def setTimeout_def clearTimeout_def Let_def split: option.splits)
  have a: "saveTimers ?s' m = Some h" if "timeouts ?s' h = Some (due, m, r')" for h due m r'
  proof (cases "h = next_timeout s")
    case True
    then have "m = n" using that by (simp add: tm)
    then show ?thesis using True by (simp add: st)
  next
    case False
    then have old: "timeouts s h = Some (due, m, r')" and nh: "saveTimers s n \<noteq> Some h"
      using that by (auto simp: tm split: if_splits)
    have "saveTimers s m = Some h" using old by (rule one)
    then have "m \<noteq> n" using nh by auto
    then show ?thesis using \<open>saveTimers s m = Some h\<close> by (simp add: st)
  qed
  have b: "h < next_timeout ?s'" if "saveTimers ?s' m = Some h" for m h
    using that bound [of m h] by (auto simp: st nt split: if_splits)
  show ?thesis
    unfolding timers_inv_def using a b by blast
qed

lemma timers_inv_fold_debouncedSave:
  "timers_inv s \<Longrightarrow> timers_inv (fold (\<lambda>n. debouncedSave n r) ns s)"
  by (induction ns arbitrary: s) (simp_all add: timers_inv_debouncedSave)

lemma timers_inv_cong:
  "timeouts s' = timeouts s \<Longrightarrow> saveTimers s' = saveTimers s \<Longrightarrow>
   next_timeout s' = next_timeout s \<Longrightarrow> timers_inv s' = timers_inv s"
  by (simp add: timers_inv_def)

lemma saveToMinIO_timers:
  "timeouts (saveToMinIO enc n r s) = timeouts s"
  "saveTimers (saveToMinIO enc n r s) = saveTimers s"
  "next_timeout (saveToMinIO enc n r s) = next_timeout s"
  by (simp_all add: saveToMinIO_def issue_def Let_def)

lemma settle_timers:
  "timeouts (settle i out s) = timeouts s"
  "saveTimers (settle i out s) = saveTimers s"
  "next_timeout (settle i out s) = next_timeout s"
  by (simp_all add: settle_def Let_def)

lemma timers_inv_fire:
  assumes "timers_inv s"
  shows "timers_inv (fire enc h s)"
proof (cases "timeouts s h")
  case None
  then show ?thesis using assms by (simp add: fire_def)
next
  case (Some t)
  obtain due m r where t: "t = (due, m, r)" by (cases t)
  show ?thesis
  proof (cases "due \<le> now s")
    case False
    then show ?thesis using assms Some t by (simp add: fire_def)
  next
    case True
    have one: "\<And>h due m r'. timeouts s h = Some (due, m, r') \<Longrightarrow> saveTimers s m = Some h"
      and bound: "\<And>m h. saveTimers s m = Some h \<Longrightarrow> h < next_timeout s"
      using assms by (auto simp: timers_inv_def)
    let ?s' = "fire enc h s"
    have tm: "timeouts ?s' = (timeouts s)(h := None)"
      and st: "saveTimers ?s' = (saveTimers s)(m := None)"
      and nt: "next_timeout ?s' = next_timeout s"
      using Some t True
      by (simp_all add: fire_def timer_callback_def Let_def saveToMinIO_timers)
    have mh: "saveTimers s m = Some h" using Some t one by simp
    have a: "saveTimers ?s' m' = Some h'" if "timeouts ?s' h' = Some (due', m', r')"
      for h' due' m' r'
    proof -
      have hh: "h' \<noteq> h" and old: "timeouts s h' = Some (due', m', r')"
        using that by (auto simp: tm split: if_splits)
      have "saveTimers s m' = Some h'" using old by (rule one)
      then have "m' \<noteq> m" using mh hh by auto
      then show ?thesis using \<open>saveTimers s m' = Some h'\<close> by (simp add: st)
    qed
    have b: "h' < next_timeout ?s'" if "saveTimers ?s' m' = Some h'" for m' h'
      using that bound [of m' h'] by (auto simp: st nt split: if_splits)
    show ?thesis
      unfolding timers_inv_def using a b by blast
  qed
qed

lemma timers_inv_transact:
  assumes "timers_inv (server a)"
  shows "timers_inv (server (transact r f a))"
proof -
  have "timers_inv (s\<lparr>docs := x\<rparr>)" if "timers_inv s" for s :: server and x
    using that by (simp add: timers_inv_def)
  then show ?thesis
    using assms
    by (simp add: transact_def Let_def emit_update_def on_server_def timers_inv_fold_debouncedSave)
qed

lemma timers_inv_validateFileIndex:
  assumes "timers_inv (server a)"
  shows "timers_inv (server (validateFileIndex stat r a))"
proof -
  obtain del checked where sc:
    "scan stat (files (docs (server a) r)) (map fst (files (docs (server a) r))) ([], []) = (del, checked)"
    by (cases "scan stat (files (docs (server a) r)) (map fst (files (docs (server a) r))) ([], [])")
  let ?asked = "map (\<lambda>c. StatObject (minioKey (fst c))) checked"
  let ?a1 = "on_server (\<lambda>s. s\<lparr>requests := requests s @ ?asked\<rparr>) a"
  have a1: "timers_inv (server ?a1)"
    using assms by (simp add: on_server_def timers_inv_def)
  have "timers_inv (server (transact r f ?a1))" for f
    using a1 by (rule timers_inv_transact)
  then show ?thesis
    using a1 sc by (simp add: validateFileIndex_def Let_def)
qed

lemma timers_inv_bindState:
  assumes "timers_inv (server a)"
  shows "timers_inv (server (bindState ap n r out stat a))"
proof -
  let ?s1 = "(server a)\<lparr>requests := requests (server a) @ [GetObject (object_key n)]\<rparr>"
  let ?a1 = "a\<lparr>server := ?s1\<rparr>"
  let ?data = "case out of Resolved \<Rightarrow> bucket (server a) (object_key n) | Rejected code \<Rightarrow> None"
  let ?a2 = "case ?data of Some b \<Rightarrow> transact r (ap b) ?a1 | None \<Rightarrow> ?a1"
  let ?a3 = "if n = file_index_name then validateFileIndex stat r ?a2 else ?a2"
  have a1: "timers_inv (server ?a1)"
    using assms by (simp add: timers_inv_def)
  have "timers_inv (server (transact r f ?a1))" for f
    using a1 by (rule timers_inv_transact)
  then have a2: "timers_inv (server ?a2)"
    using a1 by (cases ?data) simp_all
  have a3: "timers_inv (server ?a3)"
    using a2 by (simp add: timers_inv_validateFileIndex)
  have obs: "timers_inv (server (on_server (\<lambda>s. s\<lparr>observers := g s\<rparr>) b))"
    if "timers_inv (server b)" for b g
    using that by (simp add: on_server_def timers_inv_def)
  have "bindState ap n r out stat a =
        on_server (\<lambda>s. s\<lparr>observers := (observers s)(r := observers s r @ [n])\<rparr>) ?a3"
    by (simp add: bindState_def loadFromMinIO_def Let_def)
  then show ?thesis using obs [OF a3] by simp
qed

lemma timers_inv_exec:
  assumes "timers_inv (server a)"
  shows "timers_inv (server (exec enc ap e a))"
proof (cases e)
  case (Update r f)
  then show ?thesis using assms by (simp add: timers_inv_transact)
next
  case (Tick ms)
  then show ?thesis using assms by (simp add: on_server_def timers_inv_def)
next
  case (Fire h)
  then show ?thesis using assms by (simp add: on_server_def timers_inv_fire)
next
  case (WriteState n r)
  then show ?thesis using assms
    by (simp add: on_server_def writeState_def timers_inv_cong [OF saveToMinIO_timers])
next
  case (Settle i out)
  then show ?thesis using assms
    by (simp add: on_server_def timers_inv_cong [OF settle_timers])
next
  case (Bind n r out stat)
  then show ?thesis using assms by (simp add: timers_inv_bindState)
qed

lemma timers_inv_run: "timers_inv (server a) \<Longrightarrow> timers_inv (server (run enc ap evs a))"
  unfolding run_def by (induction evs arbitrary: a) (simp_all add: timers_inv_exec)

lemma timers_inv_startup: "timers_inv (server (startup m ds))"
  by (simp add: timers_inv_def startup_def)

section \<open>Two schedules in one window\<close>

lemma debouncedSave_restarts:
  assumes "timers_inv s"
  shows "(\<forall>h. saveTimers s n = Some h \<longrightarrow> timeouts (debouncedSave n r s) h = None)
       \<and> timeouts (debouncedSave n r s) (next_timeout s) = Some (now s + SAVE_DEBOUNCE_MS, n, r)
       \<and> saveTimers (debouncedSave n r s) n = Some (next_timeout s)"
proof -
  have "h \<noteq> next_timeout s" if "saveTimers s n = Some h" for h
    using assms that by (auto simp: timers_inv_def)
  then show ?thesis
    by (auto simp: debouncedSave_def setTimeout_def clearTimeout_def Let_def split: option.splits)
qed

text \<open>
  C4, amended. From any reachable state, two calls of \<open>debouncedSave\<close> for a name less
  than 3000 ms apart lead to one call of \<open>saveToMinIO\<close>, 3000 ms after the later call.
  If no save for the name is in flight then, exactly one write is made to the document's
  object: a \<open>putObject\<close> of the document as changed before the later call. If a save
  for the name is in flight, or the 3000 ms have not passed, no write is made. Each
  call of \<open>debouncedSave\<close> drops the timer pending for the name and starts a new one,
  due 3000 ms later.
\<close>

theorem two_schedules_one_save:
  assumes "s0 = server (run enc applyUpdate evs (startup m ds0))"
    and "d < SAVE_DEBOUNCE_MS"
  shows "filter (writes_to (object_key n)) (requests (burst enc n r d ds e s0))
           = filter (writes_to (object_key n)) (requests s0)
             @ (if SAVE_DEBOUNCE_MS \<le> e \<and> n \<notin> task_doc ` set (awaiting s0)
                then [PutObject (object_key n) (enc (ds r))] else [])
       \<and> (\<forall>h. saveTimers s0 n = Some h \<longrightarrow> timeouts (debouncedSave n r s0) h = None)
       \<and> timeouts (debouncedSave n r s0) (next_timeout s0)
           = Some (now s0 + SAVE_DEBOUNCE_MS, n, r)
       \<and> saveTimers (debouncedSave n r s0) n = Some (next_timeout s0)"
proof -
  have inv: "timers_inv s0"
    unfolding assms(1) using timers_inv_startup by (rule timers_inv_run)
  have "lock_inv s0"
    unfolding assms(1) using lock_inv_startup by (rule lock_inv_run)
  then have l: "saveLocks s0 n \<noteq> Some True \<longleftrightarrow> n \<notin> task_doc ` set (awaiting s0)"
    by (simp add: lock_inv_def)
  show ?thesis
    using burst_writes [OF inv assms(2), where n = n and enc = enc and r = r and ds = ds and e = e]
      debouncedSave_restarts [OF inv, where n = n and r = r]
    unfolding l by simp
qed

theorem two_schedules_one_save_witness:
  "server demo_start = server (run content keep_doc [] (startup Map.empty demo_heap))
   \<and> (1000::nat) < SAVE_DEBOUNCE_MS
   \<and> filter (writes_to (object_key demo_name))
        (requests (burst content demo_name 0 1000 edited_heap 3000 (server demo_start)))
      = [PutObject (object_key demo_name) (str ''v2'')]"
  using two_schedules_one_save [of "server demo_start" content keep_doc "[]" Map.empty demo_heap
      1000 demo_name 0 edited_heap 3000]
  by (simp add: demo_start_def run_def SAVE_DEBOUNCE_MS_def startup_def edited_heap_def
      edit_def demo_doc_def)

text \<open>
  C4, as stated, fails when a save for the name is in flight: the two schedules lead to
  no write at all, and no timer is left.
\<close>

theorem two_schedules_while_saving_counterexample:
  "demo_name \<in> task_doc ` set (awaiting demo_busy)
   \<and> requests demo_busy = [PutObject (object_key demo_name) (str ''v1'')]
   \<and> requests (burst content demo_name 0 1000 edited_heap 3000 demo_busy) = requests demo_busy
   \<and> timeouts (burst content demo_name 0 1000 edited_heap 3000 demo_busy) 0 = None
   \<and> timeouts (burst content demo_name 0 1000 edited_heap 3000 demo_busy) 1 = None
   \<and> saveTimers (burst content demo_name 0 1000 edited_heap 3000 demo_busy) demo_name = None"
  by (simp add: demo_busy_def demo_start_def run_def on_server_def writeState_def
      saveToMinIO_def issue_def startup_def Let_def demo_heap_def demo_doc_def
      burst_def debouncedSave_def setTimeout_def clearTimeout_def run_timers_def fire_def
      timer_callback_def SAVE_DEBOUNCE_MS_def)

section \<open>Reconciliation of the file index\<close>

lemma scan_spec:
  "scan stat fi ks (del0, chk0) = (del, chk) \<Longrightarrow>
   \<exists>chk'. chk = chk0 @ chk'
      \<and> del = del0 @ map fst (filter (\<lambda>c. snd c = not_found) chk')
      \<and> map fst chk' = filter (\<lambda>k. \<not> is_folder (map_of fi k)) ks"
proof (induction ks arbitrary: del0 chk0)
  case Nil
  then show ?case by simp
next
  case (Cons k ks)
  show ?case
  proof (cases "is_folder (map_of fi k)")
    case True
    then have "scan stat fi ks (del0, chk0) = (del, chk)" using Cons.prems by simp
    from Cons.IH [OF this] show ?thesis using True by simp
  next
    case False
    show ?thesis
    proof (cases "stat (length chk0) (minioKey k)")
      case Found
      then have "scan stat fi ks (del0, chk0 @ [(k, Found)]) = (del, chk)"
        using Cons.prems False by simp
      from Cons.IH [OF this] obtain chk' where
        "chk = (chk0 @ [(k, Found)]) @ chk'"
        "del = del0 @ map fst (filter (\<lambda>c. snd c = not_found) chk')"
        "map fst chk' = filter (\<lambda>k. \<not> is_folder (map_of fi k)) ks"
        by blast
      then show ?thesis using False
        by (intro exI [of _ "(k, Found) # chk'"]) (simp add: not_found_def)
    next
      case (Failed code)
      show ?thesis
      proof (cases "code = Some (str ''NotFound'')")
        case True
        then have "scan stat fi ks (del0 @ [k], chk0 @ [(k, Failed code)]) = (del, chk)"
          using Cons.prems False Failed by simp
        from Cons.IH [OF this] obtain chk' where
          "chk = (chk0 @ [(k, Failed code)]) @ chk'"
          "del = (del0 @ [k]) @ map fst (filter (\<lambda>c. snd c = not_found) chk')"
          "map fst chk' = filter (\<lambda>k. \<not> is_folder (map_of fi k)) ks"
          by blast
        then show ?thesis using False True
          by (intro exI [of _ "(k, Failed code) # chk'"]) (simp add: not_found_def)
      next
        case nf: False
        then have "scan stat fi ks (del0, chk0 @ [(k, Failed code)]) = (del, chk)"
          using Cons.prems False Failed by simp
        from Cons.IH [OF this] obtain chk' where
          "chk = (chk0 @ [(k, Failed code)]) @ chk'"
          "del = del0 @ map fst (filter (\<lambda>c. snd c = not_found) chk')"
          "map fst chk' = filter (\<lambda>k. \<not> is_folder (map_of fi k)) ks"
          by blast
        then show ?thesis using False nf
          by (intro exI [of _ "(k, Failed code) # chk'"]) (simp add: not_found_def)
      qed
    qed
  qed
qed

lemma fold_map_delete:
  "files (fold map_delete del d) = filter (\<lambda>e. fst e \<notin> set del) (files d)"
  "content (fold map_delete del d) = content d"
  "crdt (fold map_delete del d) = crdt d"
  by (induction del arbitrary: d; simp add: map_delete_def conj_commute)+

lemma transact_doc: "docs (server (transact r f a)) r = f (docs (server a) r)"
  by (simp add: transact_def Let_def emit_update_fields on_server_def)

lemma transact_updates:
  "updates (transact r f a)
     = updates a @ (if f (docs (server a) r) = docs (server a) r then [] else [r])"
  by (simp add: transact_def Let_def emit_update_def on_server_def)

lemma validateFileIndex_result:
  assumes "scan stat (files (docs (server a) r)) (map fst (files (docs (server a) r))) ([], [])
             = (del, chk)"
  shows "docs (server (validateFileIndex stat r a)) r = fold map_delete del (docs (server a) r)"
    and "requests (server (validateFileIndex stat r a))
           = requests (server a) @ map (\<lambda>c. StatObject (minioKey (fst c))) chk"
    and "updates (validateFileIndex stat r a)
           = updates a @ (if del = [] \<or> fold map_delete del (docs (server a) r) = docs (server a) r
                          then [] else [r])"
  using assms
  by (simp_all add: validateFileIndex_def Let_def transact_doc transact_fields transact_updates
      on_server_def)

lemma scan_checked_keys:
  assumes "scan stat fi ks ([], []) = (del, chk)"
  shows "map fst chk = filter (\<lambda>k. \<not> is_folder (map_of fi k)) ks"
    and "del = map fst (filter (\<lambda>c. snd c = not_found) chk)"
  using scan_spec [OF assms] by auto

lemma abc_scan:
  "scan (stat_bucket only_b) (files abc_index) (map fst (files abc_index)) ([], [])
     = ([str ''a''], [(str ''a'', not_found), (str ''b'', Found)])"
  by (simp add: abc_index_def is_folder_def file_meta_def folder_meta_def stat_bucket_def
      only_b_def minioKey_def object_key_def sanitize_def safe_char_def str_def not_found_def)

text \<open>
  C5. Reconciling the index \<open>{a: file, b: file, c: folder}\<close> against a bucket that holds
  only the object of \<open>b\<close> leaves the entries \<open>b\<close> and \<open>c\<close>, emits exactly one update
  event (one transaction holds the deletion) and asks the store about \<open>a\<close> and \<open>b\<close>
  only. For every index and every behaviour of the store: the \<open>statObject\<close> calls are
  those for the entries that are not folders, in order; at most one transaction is made;
  and every folder entry stays in the index.
\<close>

theorem reconcile_abc:
  "files (docs (server (validateFileIndex (stat_bucket only_b) 0 abc_start)) 0)
      = [(str ''b'', file_meta), (str ''c'', folder_meta)]
   \<and> updates (validateFileIndex (stat_bucket only_b) 0 abc_start) = [0]
   \<and> requests (server (validateFileIndex (stat_bucket only_b) 0 abc_start))
      = [StatObject (object_key (str ''a'')), StatObject (object_key (str ''b''))]
   \<and> requests (server (validateFileIndex stat r a))
      = requests (server a)
        @ map (\<lambda>k. StatObject (minioKey k))
            (filter (\<lambda>k. \<not> is_folder (map_of (files (docs (server a) r)) k))
               (map fst (files (docs (server a) r))))
   \<and> length (updates (validateFileIndex stat r a)) \<le> Suc (length (updates a))
   \<and> (\<forall>e \<in> set (files (docs (server a) r)).
         is_folder (map_of (files (docs (server a) r)) (fst e)) \<longrightarrow>
         e \<in> set (files (docs (server (validateFileIndex stat r a)) r)))"
proof -
  let ?fi = "files (docs (server a) r)"
  obtain del chk where sc: "scan stat ?fi (map fst ?fi) ([], []) = (del, chk)"
    by (cases "scan stat ?fi (map fst ?fi) ([], [])")
  note res = validateFileIndex_result [OF sc]
  note keys = scan_checked_keys [OF sc]
  have asked: "map (\<lambda>c. StatObject (minioKey (fst c))) chk
                 = map (\<lambda>k. StatObject (minioKey k)) (map fst chk)"
    by simp
  have g1: "requests (server (validateFileIndex stat r a))
      = requests (server a)
        @ map (\<lambda>k. StatObject (minioKey k))
            (filter (\<lambda>k. \<not> is_folder (map_of ?fi k)) (map fst ?fi))"
    unfolding res(2) asked keys(1) by (rule refl)
  have g2: "length (updates (validateFileIndex stat r a)) \<le> Suc (length (updates a))"
    by (simp add: res(3))
  have "set del \<subseteq> set (map fst chk)"
    unfolding keys(2) by auto
  then have nd: "k \<notin> set del" if "is_folder (map_of ?fi k)" for k
    using that unfolding keys(1) by auto
  have g3: "\<forall>e \<in> set ?fi. is_folder (map_of ?fi (fst e)) \<longrightarrow>
         e \<in> set (files (docs (server (validateFileIndex stat r a)) r))"
    by (simp add: res(1) fold_map_delete(1) nd)
  have sc0: "scan (stat_bucket only_b) (files (docs (server abc_start) 0))
               (map fst (files (docs (server abc_start) 0))) ([], [])
             = ([str ''a''], [(str ''a'', not_found), (str ''b'', Found)])"
    using abc_scan by (simp add: abc_start_def startup_def abc_heap_def)
  note res0 = validateFileIndex_result [OF sc0]
  have d0: "docs (server abc_start) 0 = abc_index"
    by (simp add: abc_start_def startup_def abc_heap_def)
  have c1: "files (docs (server (validateFileIndex (stat_bucket only_b) 0 abc_start)) 0)
      = [(str ''b'', file_meta), (str ''c'', folder_meta)]"
    unfolding res0(1) fold_map_delete(1) d0 by (simp add: abc_index_def str_def)
  have c2: "updates (validateFileIndex (stat_bucket only_b) 0 abc_start) = [0]"
    unfolding res0(3) d0
    by (simp add: abc_index_def map_delete_def abc_start_def startup_def str_def)
  have c3: "requests (server (validateFileIndex (stat_bucket only_b) 0 abc_start))
      = [StatObject (object_key (str ''a'')), StatObject (object_key (str ''b''))]"
    unfolding res0(2)
    by (simp add: abc_start_def startup_def minioKey_def object_key_def sanitize_def
        safe_char_def str_def)
  show ?thesis using c1 c2 c3 g1 g2 g3 by blast
qed

theorem reconcile_abc_witness:
  "(str ''c'', folder_meta) \<in> set (files (docs (server abc_start) 0))
   \<and> is_folder (map_of (files (docs (server abc_start) 0)) (str ''c''))
   \<and> (str ''c'', folder_meta)
        \<in> set (files (docs (server (validateFileIndex (stat_bucket only_b) 0 abc_start)) 0))"
proof -
  have a: "(str ''c'', folder_meta) \<in> set (files (docs (server abc_start) 0))"
    by (simp add: abc_start_def startup_def abc_heap_def abc_index_def)
  have b: "is_folder (map_of (files (docs (server abc_start) 0)) (str ''c''))"
    by (simp add: abc_start_def startup_def abc_heap_def abc_index_def is_folder_def
        folder_meta_def str_def)
  show ?thesis
    using reconcile_abc [of "stat_bucket only_b" 0 abc_start] a b by auto
qed

lemma same_key_same_value:
  "distinct (map fst xs) \<Longrightarrow> (k, v) \<in> set xs \<Longrightarrow> (k, v') \<in> set xs \<Longrightarrow> v = v'"
  by (rule eq_key_imp_eq_value)

text \<open>
  C6. For every file index (a map: its keys are distinct) and every behaviour of the
  store: an entry whose \<open>statObject\<close> call is rejected with a code other than
  \<open>NotFound\<close> is not put into \<open>keysToDelete\<close>, and it is in the index, as it was,
  after \<open>validateFileIndex\<close>.
\<close>

theorem transient_stat_error_keeps_entry:
  assumes "distinct (map fst (files (docs (server a) r)))"
    and "scan stat (files (docs (server a) r)) (map fst (files (docs (server a) r))) ([], [])
           = (keysToDelete, checked)"
    and "(key, Failed code) \<in> set checked"
    and "code \<noteq> Some (str ''NotFound'')"
  shows "key \<notin> set keysToDelete
       \<and> (\<forall>e \<in> set (files (docs (server a) r)).
            fst e = key \<longrightarrow> e \<in> set (files (docs (server (validateFileIndex stat r a)) r)))"
proof -
  let ?fi = "files (docs (server a) r)"
  note keys = scan_checked_keys [OF assms(2)]
  have d: "distinct (map fst checked)"
    unfolding keys(1) using assms(1) by (rule distinct_filter)
  have nd: "key \<notin> set keysToDelete"
  proof
    assume "key \<in> set keysToDelete"
    then have "(key, not_found) \<in> set checked"
      unfolding keys(2) by auto
    with d assms(3) have "Failed code = not_found"
      by (rule same_key_same_value)
    then show False using assms(4) by (simp add: not_found_def)
  qed
  then show ?thesis
    by (simp add: validateFileIndex_result(1) [OF assms(2)] fold_map_delete(1))
qed

lemma abc_flaky_scan:
  "scan flaky (files abc_index) (map fst (files abc_index)) ([], [])
     = ([], [(str ''a'', Failed (Some (str ''ECONNRESET''))), (str ''b'', Found)])"
  by (simp add: abc_index_def is_folder_def file_meta_def folder_meta_def flaky_def str_def)

theorem transient_stat_error_keeps_entry_witness:
  "distinct (map fst (files (docs (server abc_start) 0)))
   \<and> scan flaky (files (docs (server abc_start) 0))
        (map fst (files (docs (server abc_start) 0))) ([], [])
       = ([], [(str ''a'', Failed (Some (str ''ECONNRESET''))), (str ''b'', Found)])
   \<and> Some (str ''ECONNRESET'') \<noteq> Some (str ''NotFound'')
   \<and> (str ''a'', file_meta)
        \<in> set (files (docs (server (validateFileIndex flaky 0 abc_start)) 0))"
proof -
  have d0: "docs (server abc_start) 0 = abc_index"
    by (simp add: abc_start_def startup_def abc_heap_def)
  have a: "distinct (map fst (files (docs (server abc_start) 0)))"
    unfolding d0 by (simp add: abc_index_def str_def)
  have b: "scan flaky (files (docs (server abc_start) 0))
        (map fst (files (docs (server abc_start) 0))) ([], [])
       = ([], [(str ''a'', Failed (Some (str ''ECONNRESET''))), (str ''b'', Found)])"
    unfolding d0 by (rule abc_flaky_scan)
  have c: "Some (str ''ECONNRESET'') \<noteq> Some (str ''NotFound'')"
    by (simp add: str_def)
  have e: "(str ''a'', file_meta) \<in> set (files (docs (server abc_start) 0))"
    unfolding d0 by (simp add: abc_index_def)
  show ?thesis
    using transient_stat_error_keeps_entry [OF a b _ c, of "str ''a''"] a b c e by auto
qed

section \<open>Room names and the listing\<close>

lemma pad4_eq: "pad4 s = s @ replicate ((4 - length s mod 4) mod 4) 61"
proof (induction s rule: pad4.induct)
  case (1 s)
  show ?case
  proof (cases "length s mod 4 = 0")
    case True
    have "pad4 s = s" by (subst pad4.simps) (simp only: True, simp)
    then show ?thesis by (simp only: True, simp)
  next
    case False
    have "pad4 s = pad4 (s @ [61])"
      by (subst pad4.simps) (simp only: False if_True not_False_eq_True)
    also have "\<dots> = (s @ [61]) @ replicate ((4 - length (s @ [61]) mod 4) mod 4) 61"
      using False by (rule "1.IH")
    also have "\<dots> = s @ replicate (Suc ((4 - Suc (length s) mod 4) mod 4)) 61"
      by simp
    also have "Suc ((4 - Suc (length s) mod 4) mod 4) = (4 - length s mod 4) mod 4"
      using False by (rule pad_step(2))
    finally show ?thesis .
  qed
qed

lemma roomToPath_percents: "roomToPath (str ''%%%'') = Inr []"
  by (simp add: roomToPath_def replace_char_def pad4_eq Buffer_from_base64_def str_def
      unbase64_def List.map_filter_simps toString_utf8_def)

lemma roomToPath_foo: "roomToPath (str ''Zm9vLm1k'') = Inr (str ''foo.md'')"
  by (simp add: roomToPath_def replace_char_def pad4_eq Buffer_from_base64_def str_def
      unbase64_def List.map_filter_simps toString_utf8_def utf8_lead_def emit_def)

text \<open>A room name that does make \<open>roomToPath\<close> throw: it decodes to a lone \<open>%\<close>.\<close>

lemma roomToPath_lone_percent: "roomToPath (str ''JQ'') = Inl URIError"
  by (simp add: roomToPath_def replace_char_def pad4_eq Buffer_from_base64_def str_def
      unbase64_def List.map_filter_simps toString_utf8_def utf8_lead_def emit_def)

lemma room_names:
  "startsWith (str ''yjs/__file_index__.yjs'') (str ''yjs/'')"
  "endsWith (str ''yjs/__file_index__.yjs'') (str ''.yjs'')"
  "slice_4_4 (str ''yjs/__file_index__.yjs'') = str ''__file_index__''"
  "startsWith (str ''yjs/Zm9vLm1k.yjs'') (str ''yjs/'')"
  "endsWith (str ''yjs/Zm9vLm1k.yjs'') (str ''.yjs'')"
  "slice_4_4 (str ''yjs/Zm9vLm1k.yjs'') = str ''Zm9vLm1k''"
  "startsWith (str ''yjs/%%%.yjs'') (str ''yjs/'')"
  "endsWith (str ''yjs/%%%.yjs'') (str ''.yjs'')"
  "slice_4_4 (str ''yjs/%%%.yjs'') = str ''%%%''"
  "startsWith (str ''yjs/JQ.yjs'') (str ''yjs/'')"
  "endsWith (str ''yjs/JQ.yjs'') (str ''.yjs'')"
  "slice_4_4 (str ''yjs/JQ.yjs'') = str ''JQ''"
  by (simp_all add: startsWith_def endsWith_def slice_4_4_def str_def)

lemma name_tests:
  "str ''Zm9vLm1k'' \<noteq> str ''__file_index__''"
  "str ''%%%'' \<noteq> str ''__file_index__''"
  "str ''JQ'' \<noteq> str ''__file_index__''"
  by (simp_all add: str_def)

lemma collect_listed: "collect listed_objects [] = [str ''foo.md'', []]"
  by (simp add: listed_objects_def room_names name_tests roomToPath_percents roomToPath_foo)

lemma collect_listed_sorted: "collect listed_objects_sorted [] = [[], str ''foo.md'']"
  by (simp add: listed_objects_sorted_def room_names name_tests roomToPath_percents
      roomToPath_foo)

text \<open>A key whose room name makes \<open>roomToPath\<close> throw is skipped, and the listing goes on.\<close>

lemma collect_skips_failed_decoding:
  "collect [str ''yjs/JQ.yjs'', str ''yjs/Zm9vLm1k.yjs''] [] = [str ''foo.md'']"
  by (simp add: room_names name_tests roomToPath_lone_percent roomToPath_foo)

lemma quote_foo: \<open>QuoteJSONString (str ''foo.md'') = str ''"foo.md"''\<close>
  by (simp add: QuoteJSONString_def quote_unit_def high_surrogate_def low_surrogate_def str_def)

lemma quote_empty: \<open>QuoteJSONString [] = str ''""''\<close>
  by (simp add: QuoteJSONString_def str_def)

lemma quote_files: \<open>QuoteJSONString (str ''files'') = str ''"files"''\<close>
  by (simp add: QuoteJSONString_def quote_unit_def high_surrogate_def low_surrogate_def str_def)

text \<open>
  C9: the code at the listing scenario. \<open>roomToPath\<close> does not throw on \<open>%%%\<close>:
  the base64 decoder skips the three characters and returns no bytes, which decode to
  the empty path. So the key is not skipped, and the body lists the empty path beside
  \<open>foo.md\<close>, in either order of the listing; the status is 200 and the index is left
  out.
\<close>

theorem files_listing_keeps_malformed_key:
  \<open>roomToPath (str ''%%%'') = Inr []
   \<and> status (handle_request get_files listed_objects None) = 200
   \<and> body (handle_request get_files listed_objects None) = str ''{"files":["foo.md",""]}''
   \<and> body (handle_request get_files listed_objects_sorted None) = str ''{"files":["","foo.md"]}''
   \<and> body (handle_request get_files listed_objects None) \<noteq> str ''{"files":["foo.md"]}''\<close>
proof -
  have m: "req_method get_files = str ''GET''" "pathname get_files = str ''/files''"
    "str ''GET'' \<noteq> str ''OPTIONS''"
    by (simp_all add: get_files_def str_def)
  have b1: \<open>body (handle_request get_files listed_objects None) = str ''{"files":["foo.md",""]}''\<close>
    unfolding handle_request_def m
    by (simp add: m(3) collect_listed stringify_files_def quote_foo quote_empty quote_files)
      (simp add: str_def)
  have b2: \<open>body (handle_request get_files listed_objects_sorted None)
              = str ''{"files":["","foo.md"]}''\<close>
    unfolding handle_request_def m
    by (simp add: m(3) collect_listed_sorted stringify_files_def quote_foo quote_empty quote_files)
      (simp add: str_def)
  have s: "status (handle_request get_files listed_objects None) = 200"
    unfolding handle_request_def m by (simp add: m(3))
  have n: \<open>str ''{"files":["foo.md",""]}'' \<noteq> str ''{"files":["foo.md"]}''\<close>
    by (simp add: str_def)
  show ?thesis using roomToPath_percents b1 b2 s n by simp
qed

section \<open>The round trip of room names\<close>

subsection \<open>Escapes\<close>

lemma hex_digit_upper: "d < 16 \<Longrightarrow> hex_digit (hex_upper d) = Some d"
  by (simp add: hex_digit_def hex_upper_def)

lemma hex_upper_ascii: "d < 16 \<Longrightarrow> hex_upper d < 128"
  by (simp add: hex_upper_def)

lemma hex_octet_escape:
  assumes "b < 256"
  shows "hex_octet (hex_upper (b div 16) # hex_upper (b mod 16) # r) = Some b"
proof -
  have "b div 16 < 16" using assms by (simp add: less_mult_imp_div_less)
  then show ?thesis by (simp add: hex_digit_upper)
qed

lemma escape_octet_ascii:
  assumes "b < 256" "c \<in> set (escape_octet b)"
  shows "c < 128"
proof -
  have "b div 16 < 16" using assms(1) by (simp add: less_mult_imp_div_less)
  then show ?thesis
    using assms(2) by (auto simp: escape_octet_def hex_upper_ascii)
qed

lemma escape_octets_ascii:
  "\<forall>b \<in> set bs. b < 256 \<Longrightarrow> \<forall>c \<in> set (escape_octets bs). c < 128"
  by (auto simp: escape_octets_def escape_octet_ascii)

lemma escape_octets_Cons: "escape_octets (b # bs) = escape_octet b @ escape_octets bs"
  by (simp add: escape_octets_def)

lemma length_escape_octets: "length (escape_octets bs) = 3 * length bs"
  by (induction bs) (simp_all add: escape_octets_def escape_octet_def)

lemma escaped_octets_escape:
  "\<forall>b \<in> set bs. b < 256 \<Longrightarrow> escaped_octets (length bs) (escape_octets bs @ r) = Some bs"
proof (induction bs)
  case Nil
  then show ?case by (simp add: escape_octets_def)
next
  case (Cons b bs)
  then have b: "b < 256" and IH: "escaped_octets (length bs) (escape_octets bs @ r) = Some bs"
    by simp_all
  show ?case
    by (simp add: escape_octets_Cons escape_octet_def hex_octet_escape [OF b] IH
        del: hex_octet.simps)
qed

lemma decode_single:
  assumes "b < 128"
  shows "decodeURIComponent (escape_octets [b] @ r) = emit [b] (decodeURIComponent r)"
proof -
  have b: "b < 256" using assms by simp
  show ?thesis
    using assms
    by (simp add: escape_octets_def escape_octet_def hex_octet_escape [OF b] leading_ones_def
        del: hex_octet.simps)
qed

lemma decode_sequence:
  assumes b: "b < 256" and bs: "\<forall>x \<in> set bs. x < 256"
    and n: "leading_ones b = Suc (length bs)" and len: "0 < length bs" "length bs \<le> 3"
    and v: "utf8_code_point (b # bs) = Some v"
  shows "decodeURIComponent (escape_octets (b # bs) @ r)
           = emit (utf16_encode v) (decodeURIComponent r)"
proof -
  have e: "escaped_octets (length bs) (escape_octets bs @ r) = Some bs"
    using bs by (rule escaped_octets_escape)
  have d: "drop (3 * length bs) (escape_octets bs @ r) = r"
    by (simp add: length_escape_octets)
  show ?thesis
    using len
    by (simp add: escape_octets_Cons escape_octet_def hex_octet_escape [OF b] n e d v
        length_escape_octets del: hex_octet.simps)
qed


subsection \<open>UTF-8 sequences\<close>

lemma split2: "(cp::nat) = (cp div 64) * 64 + cp mod 64"
  by simp

lemma split_twice:
  fixes q :: nat
  shows "q div 64 * (64 * k) + q mod 64 * k = q * k"
proof -
  have "q * k = (q div 64 * 64 + q mod 64) * k" by simp
  also have "\<dots> = q div 64 * (64 * k) + q mod 64 * k" by (simp only: algebra_simps)
  finally show ?thesis by simp
qed

lemma split3: "(cp::nat) = (cp div 4096) * 4096 + ((cp div 64) mod 64) * 64 + cp mod 64"
proof -
  have "cp div 4096 = (cp div 64) div 64"
    by (simp add: div_mult2_eq [symmetric])
  then have "(cp div 4096) * 4096 + ((cp div 64) mod 64) * 64 = (cp div 64) * 64"
    using split_twice [of "cp div 64" 64] by simp
  then show ?thesis by simp
qed

lemma split4:
  "(cp::nat) = (cp div 262144) * 262144 + ((cp div 4096) mod 64) * 4096
                 + ((cp div 64) mod 64) * 64 + cp mod 64"
proof -
  have "cp div 262144 = (cp div 4096) div 64"
    by (simp add: div_mult2_eq [symmetric])
  then have "(cp div 262144) * 262144 + ((cp div 4096) mod 64) * 4096 = (cp div 4096) * 4096"
    using split_twice [of "cp div 4096" 4096] by simp
  then have "(cp div 262144) * 262144 + ((cp div 4096) mod 64) * 4096
                  + ((cp div 64) mod 64) * 64 + cp mod 64
                = (cp div 4096) * 4096 + ((cp div 64) mod 64) * 64 + cp mod 64"
    by simp
  then show ?thesis using split3 [of cp] by simp
qed

lemma decode_escaped:
  assumes "scalar_value cp"
  shows "decodeURIComponent (escape_octets (utf8_encode cp) @ r)
           = emit (utf16_encode cp) (decodeURIComponent r)"
proof -
  consider "cp < 128" | "128 \<le> cp" "cp < 2048" | "2048 \<le> cp" "cp < 65536" | "65536 \<le> cp"
    by linarith
  then show ?thesis
  proof cases
    case 1
    then show ?thesis
      by (simp add: utf8_encode_def decode_single utf16_encode_def)
  next
    case 2
    define a b where "a = cp div 64" and "b = cp mod 64"
    have a: "a < 32" unfolding a_def using 2 by (simp add: less_mult_imp_div_less)
    have a2: "2 \<le> a" unfolding a_def using 2 by (simp add: le_div_geq)
    have b: "b < 64" unfolding b_def by simp
    have cp: "cp = a * 64 + b" unfolding a_def b_def by simp
    have enc: "utf8_encode cp = [192 + a, 128 + b]"
      using 2 by (simp add: utf8_encode_def a_def b_def)
    have v: "utf8_code_point [192 + a, 128 + b] = Some cp"
      using a a2 b by (simp add: cp continuation_def)
    show ?thesis
      unfolding enc
      by (rule decode_sequence [OF _ _ _ _ _ v]) (use a b in \<open>simp_all add: leading_ones_def\<close>)
  next
    case 3
    define a b c where "a = cp div 4096" and "b = (cp div 64) mod 64" and "c = cp mod 64"
    have a: "a < 16" unfolding a_def using 3 by (simp add: less_mult_imp_div_less)
    have b: "b < 64" unfolding b_def by simp
    have c: "c < 64" unfolding c_def by simp
    have cp: "cp = a * 4096 + b * 64 + c" unfolding a_def b_def c_def by (rule split3)
    have enc: "utf8_encode cp = [224 + a, 128 + b, 128 + c]"
      using 3 by (simp add: utf8_encode_def a_def b_def c_def)
    have v: "utf8_code_point [224 + a, 128 + b, 128 + c] = Some cp"
      using assms 3 b c by (simp add: cp [symmetric] continuation_def)
    show ?thesis
      unfolding enc
      by (rule decode_sequence [OF _ _ _ _ _ v]) (use a b c in \<open>simp_all add: leading_ones_def\<close>)
  next
    case 4
    define a b c d where "a = cp div 262144" and "b = (cp div 4096) mod 64"
      and "c = (cp div 64) mod 64" and "d = cp mod 64"
    have "cp < 5 * 262144" using assms by (simp add: scalar_value_def)
    then have a: "a < 5" unfolding a_def by (rule less_mult_imp_div_less)
    have b: "b < 64" unfolding b_def by simp
    have c: "c < 64" unfolding c_def by simp
    have d: "d < 64" unfolding d_def by simp
    have cp: "cp = a * 262144 + b * 4096 + c * 64 + d"
      unfolding a_def b_def c_def d_def by (rule split4)
    have enc: "utf8_encode cp = [240 + a, 128 + b, 128 + c, 128 + d]"
      using 4 by (simp add: utf8_encode_def a_def b_def c_def d_def)
    have v: "utf8_code_point [240 + a, 128 + b, 128 + c, 128 + d] = Some cp"
      using assms 4 b c d by (simp add: cp [symmetric] continuation_def)
    show ?thesis
      unfolding enc
      by (rule decode_sequence [OF _ _ _ _ _ v]) (use a b c d in \<open>simp_all add: leading_ones_def\<close>)
  qed
qed

lemma utf8_encode_bytes:
  assumes "scalar_value cp"
  shows "\<forall>b \<in> set (utf8_encode cp). b < 256"
proof -
  have "cp < 5 * 262144" using assms by (simp add: scalar_value_def)
  then have "cp div 262144 < 5" by (rule less_mult_imp_div_less)
  moreover have "cp div 64 < 32" if "cp < 2048"
    using that by (simp add: less_mult_imp_div_less)
  moreover have "cp div 4096 < 16" if "cp < 65536"
    using that by (simp add: less_mult_imp_div_less)
  moreover have "cp mod 64 < 64" "(cp div 64) mod 64 < 64" "(cp div 4096) mod 64 < 64"
    by simp_all
  ultimately show ?thesis
    by (auto simp: utf8_encode_def)
qed


subsection \<open>Decoding an encoded string\<close>

lemma emit_Inr: "emit u (Inr s) = Inr (u @ s)"
  by (simp add: emit_def)

lemma pair_scalar:
  assumes "high_surrogate c" "low_surrogate d"
  shows "scalar_value (65536 + (c - 55296) * 1024 + (d - 56320))"
    and "utf16_encode (65536 + (c - 55296) * 1024 + (d - 56320)) = [c, d]"
proof -
  define x y where "x = c - 55296" and "y = d - 56320"
  have x: "x < 1024" and y: "y < 1024" and c: "c = 55296 + x" and d: "d = 56320 + y"
    using assms by (auto simp: x_def y_def high_surrogate_def low_surrogate_def)
  have "x * 1024 \<le> 1023 * 1024" using x by simp
  then show "scalar_value (65536 + (c - 55296) * 1024 + (d - 56320))"
    using y unfolding x_def [symmetric] y_def [symmetric] by (simp add: scalar_value_def)
  show "utf16_encode (65536 + (c - 55296) * 1024 + (d - 56320)) = [c, d]"
    unfolding x_def [symmetric] y_def [symmetric] using y
    by (simp add: utf16_encode_def c d)
qed

lemma uri_round_trip:
  assumes U: "\<forall>c. U c \<longrightarrow> c < 128 \<and> c \<noteq> 37"
  shows "wellformed p \<Longrightarrow>
         \<exists>e. percent_encode U p = Inr e \<and> (\<forall>c \<in> set e. c < 128) \<and> decodeURIComponent e = Inr p"
proof (induction p rule: wellformed.induct)
  case 1
  show ?case by simp
next
  case (2 c)
  then have c: "c < 65536" "\<not> high_surrogate c" "\<not> low_surrogate c" by simp_all
  show ?case
  proof (cases "U c")
    case True
    then show ?thesis using U by (simp add: emit_Inr)
  next
    case False
    have sv: "scalar_value c"
      using c by (auto simp: scalar_value_def high_surrogate_def low_surrogate_def)
    have "decodeURIComponent (escape_octets (utf8_encode c)) = Inr [c]"
      using decode_escaped [OF sv, of "[]"] c(1) by (simp add: utf16_encode_def emit_Inr)
    then show ?thesis
      using False c escape_octets_ascii [OF utf8_encode_bytes [OF sv]]
      by (simp add: emit_Inr)
  qed
next
  case (3 c d rest)
  show ?case
  proof (cases "high_surrogate c")
    case True
    then have d: "low_surrogate d" and w: "wellformed rest" using "3.prems" by simp_all
    from "3.IH"(1) [OF True w] obtain e where e: "percent_encode U rest = Inr e"
      "\<forall>c \<in> set e. c < 128" "decodeURIComponent e = Inr rest"
      by blast
    let ?cp = "65536 + (c - 55296) * 1024 + (d - 56320)"
    note sv = pair_scalar(1) [OF True d] and u16 = pair_scalar(2) [OF True d]
    have nU: "\<not> U c" using U True by (auto simp: high_surrogate_def)
    have enc: "percent_encode U (c # d # rest) = Inr (escape_octets (utf8_encode ?cp) @ e)"
      using nU True d e(1) by (simp add: emit_Inr)
    have dec: "decodeURIComponent (escape_octets (utf8_encode ?cp) @ e) = Inr (c # d # rest)"
      by (simp add: decode_escaped [OF sv] u16 e(3) emit_Inr)
    show ?thesis
      using enc dec e(2) escape_octets_ascii [OF utf8_encode_bytes [OF sv]] by auto
  next
    case False
    then have c: "c < 65536" "\<not> low_surrogate c" and w: "wellformed (d # rest)"
      using "3.prems" by simp_all
    from "3.IH"(2) [OF False w] obtain e where e: "percent_encode U (d # rest) = Inr e"
      "\<forall>c \<in> set e. c < 128" "decodeURIComponent e = Inr (d # rest)"
      by blast
    show ?thesis
    proof (cases "U c")
      case True
      then have "c < 128" "c \<noteq> 37" using U by simp_all
      moreover have "percent_encode U (c # d # rest) = Inr (c # e)"
        using True e(1) by (simp add: emit_Inr)
      ultimately show ?thesis using e(2,3) by (simp add: emit_Inr)
    next
      case nU: False
      have sv: "scalar_value c"
        using c False by (auto simp: scalar_value_def high_surrogate_def low_surrogate_def)
      have enc: "percent_encode U (c # d # rest) = Inr (escape_octets (utf8_encode c) @ e)"
        using nU False c e(1) by (simp add: emit_Inr)
      have dec: "decodeURIComponent (escape_octets (utf8_encode c) @ e) = Inr (c # d # rest)"
        using c(1) by (simp add: decode_escaped [OF sv] utf16_encode_def e(3) emit_Inr)
      show ?thesis
        using enc dec e(2) escape_octets_ascii [OF utf8_encode_bytes [OF sv]] by auto
    qed
  qed
qed


subsection \<open>The base64 layer\<close>

lemma sextets_small: "\<forall>b \<in> set bs. b < 256 \<Longrightarrow> \<forall>v \<in> set (sextets bs). v < 64"
proof (induction bs rule: sextets.induct)
  case (1 a b c rest)
  then have a: "a < 256" and b: "b < 256" and c: "c < 256" by simp_all
  have "a div 4 < 64" using a by (simp add: less_mult_imp_div_less)
  moreover have "a mod 4 * 16 + b div 16 < 64"
  proof -
    have "a mod 4 \<le> 3" by simp
    moreover have "b div 16 < 16" using b by (simp add: less_mult_imp_div_less)
    ultimately show ?thesis by linarith
  qed
  moreover have "b mod 16 * 4 + c div 64 < 64"
  proof -
    have "b mod 16 \<le> 15" by simp
    moreover have "c div 64 < 4" using c by (simp add: less_mult_imp_div_less)
    ultimately show ?thesis by linarith
  qed
  ultimately show ?case using 1 by simp
next
  case (2 a b)
  then have a: "a < 256" and b: "b < 256" by simp_all
  have "a div 4 < 64" using a by (simp add: less_mult_imp_div_less)
  moreover have "a mod 4 * 16 + b div 16 < 64"
  proof -
    have "a mod 4 \<le> 3" by simp
    moreover have "b div 16 < 16" using b by (simp add: less_mult_imp_div_less)
    ultimately show ?thesis by linarith
  qed
  moreover have "b mod 16 * 4 < 64"
  proof -
    have "b mod 16 \<le> 15" by simp
    then show ?thesis by linarith
  qed
  ultimately show ?case by simp
next
  case (3 a)
  then have a: "a < 256" by simp
  have "a div 4 < 64" using a by (simp add: less_mult_imp_div_less)
  moreover have "a mod 4 * 16 < 64"
  proof -
    have "a mod 4 \<le> 3" by simp
    then show ?thesis by linarith
  qed
  ultimately show ?case by simp
next
  case 4
  show ?case by simp
qed

lemma join_digits:
  fixes x :: nat
  assumes "y < k" "0 < k"
  shows "(x * k + y) div k = x" "(x * k + y) mod k = y"
  using assms by simp_all

lemma regroup:
  fixes a b c :: nat
  assumes "b < 256" "c < 256"
  shows "a div 4 * 4 + (a mod 4 * 16 + b div 16) div 16 = a"
    and "(a mod 4 * 16 + b div 16) mod 16 * 16 + (b mod 16 * 4 + c div 64) div 4 = b"
    and "(b mod 16 * 4 + c div 64) mod 4 * 64 + c mod 64 = c"
    and "(a mod 4 * 16 + b div 16) mod 16 * 16 + (b mod 16 * 4) div 4 = b"
    and "a div 4 * 4 + (a mod 4 * 16) div 16 = a"
proof -
  have b16: "b div 16 < 16" using assms(1) by (simp add: less_mult_imp_div_less)
  have c64: "c div 64 < 4" using assms(2) by (simp add: less_mult_imp_div_less)
  have d1: "(a mod 4 * 16 + b div 16) div 16 = a mod 4"
    using b16 by (rule join_digits(1)) simp
  have m1: "(a mod 4 * 16 + b div 16) mod 16 = b div 16"
    using b16 by (rule join_digits(2)) simp
  have d2: "(b mod 16 * 4 + c div 64) div 4 = b mod 16"
    using c64 by (rule join_digits(1)) simp
  have m2: "(b mod 16 * 4 + c div 64) mod 4 = c div 64"
    using c64 by (rule join_digits(2)) simp
  have d3: "(b mod 16 * 4) div 4 = b mod 16" by simp
  have d4: "(a mod 4 * 16) div 16 = a mod 4" by simp
  show "a div 4 * 4 + (a mod 4 * 16 + b div 16) div 16 = a"
    unfolding d1 by simp
  show "(a mod 4 * 16 + b div 16) mod 16 * 16 + (b mod 16 * 4 + c div 64) div 4 = b"
    unfolding m1 d2 by simp
  show "(b mod 16 * 4 + c div 64) mod 4 * 64 + c mod 64 = c"
    unfolding m2 by simp
  show "(a mod 4 * 16 + b div 16) mod 16 * 16 + (b mod 16 * 4) div 4 = b"
    unfolding m1 d3 by simp
  show "a div 4 * 4 + (a mod 4 * 16) div 16 = a"
    unfolding d4 by simp
qed

lemma sextets_to_bytes_sextets:
  "\<forall>b \<in> set bs. b < 256 \<Longrightarrow> sextets_to_bytes (sextets bs) = bs"
proof (induction bs rule: sextets.induct)
  case (1 a b c rest)
  then have bc: "b < 256" "c < 256" and IH: "sextets_to_bytes (sextets rest) = rest"
    by simp_all
  show ?case
    unfolding sextets.simps sextets_to_bytes.simps regroup(1-3) [OF bc] IH by (rule refl)
next
  case (2 a b)
  then have bc: "b < 256" "(0::nat) < 256" by simp_all
  show ?case
    unfolding sextets.simps sextets_to_bytes.simps regroup(1,4) [OF bc] by (rule refl)
next
  case (3 a)
  have bc: "(0::nat) < 256" "(0::nat) < 256" by simp_all
  show ?case
    unfolding sextets.simps sextets_to_bytes.simps regroup(5) [OF bc] by (rule refl)
next
  case 4
  show ?case by simp
qed

text \<open>What the two replacements and the decoder's table make of a character of the room name.\<close>

lemma unbase64_char:
  assumes "v < 64"
  shows "unbase64 ((if (if base64url_char v = 45 then 43 else base64url_char v) = 95 then 47
                    else (if base64url_char v = 45 then 43 else base64url_char v)) mod 256)
           = Some v"
    and "(if (if base64url_char v = 45 then 43 else base64url_char v) = 95 then 47
          else (if base64url_char v = 45 then 43 else base64url_char v)) mod 256 \<noteq> 61"
proof -
  consider "v < 26" | "26 \<le> v" "v < 52" | "52 \<le> v" "v < 62" | "v = 62" | "v = 63"
    using assms by linarith
  then show "unbase64 ((if (if base64url_char v = 45 then 43 else base64url_char v) = 95 then 47
                    else (if base64url_char v = 45 then 43 else base64url_char v)) mod 256)
           = Some v"
    by cases (auto simp: base64url_char_def unbase64_def)
  consider "v < 26" | "26 \<le> v" "v < 52" | "52 \<le> v" "v < 62" | "v = 62" | "v = 63"
    using assms by linarith
  then show "(if (if base64url_char v = 45 then 43 else base64url_char v) = 95 then 47
          else (if base64url_char v = 45 then 43 else base64url_char v)) mod 256 \<noteq> 61"
    by cases (auto simp: base64url_char_def)
qed

lemma map_filter_all:
  "\<forall>x \<in> set xs. f x = Some (g x) \<Longrightarrow> List.map_filter f xs = map g xs"
  by (induction xs) (simp_all add: List.map_filter_simps)

lemma base64_round_trip:
  assumes "\<forall>b \<in> set bs. b < 256"
  shows "Buffer_from_base64 (pad4 (replace_char 95 47 (replace_char 45 43 (base64url bs)))) = bs"
proof -
  let ?r = "\<lambda>v. (if (if base64url_char v = 45 then 43 else base64url_char v) = 95 then 47
                  else (if base64url_char v = 45 then 43 else base64url_char v)) mod 256"
  let ?k = "(4 - length (sextets bs) mod 4) mod 4"
  have small: "\<forall>v \<in> set (sextets bs). v < 64"
    using assms by (rule sextets_small)
  have m: "map (\<lambda>c. c mod 256)
             (pad4 (replace_char 95 47 (replace_char 45 43 (base64url bs))))
           = map ?r (sextets bs) @ replicate ?k 61"
    by (simp add: pad4_eq replace_char_def base64url_def comp_def)
  have t: "takeWhile (\<lambda>c. c \<noteq> 61) (map ?r (sextets bs) @ replicate ?k 61) = map ?r (sextets bs)"
  proof -
    have "\<And>x. x \<in> set (map ?r (sextets bs)) \<Longrightarrow> x \<noteq> 61"
      using small unbase64_char(2) by auto
    then have "takeWhile (\<lambda>c. c \<noteq> 61) (map ?r (sextets bs) @ replicate ?k 61)
                 = map ?r (sextets bs) @ takeWhile (\<lambda>c. c \<noteq> 61) (replicate ?k 61)"
      by (rule takeWhile_append2)
    then show ?thesis by (simp add: takeWhile_replicate)
  qed
  have f: "List.map_filter unbase64 (map ?r (sextets bs)) = sextets bs"
  proof -
    have "\<forall>x \<in> set (sextets bs). (unbase64 \<circ> ?r) x = Some (id x)"
      using small unbase64_char(1) by simp
    then have "List.map_filter (unbase64 \<circ> ?r) (sextets bs) = map id (sextets bs)"
      by (rule map_filter_all)
    then show ?thesis by (simp add: List.map_filter_def comp_def filter_map)
  qed
  show ?thesis
    unfolding Buffer_from_base64_def m t f using assms by (rule sextets_to_bytes_sextets)
qed

lemma toString_ascii: "\<forall>c \<in> set s. c < 128 \<Longrightarrow> toString_utf8 s = s"
  unfolding toString_utf8_def by (induction s) (simp_all add: utf8_lead_def)

lemma uri_unescaped_ascii: "\<forall>c. uri_unescaped c \<longrightarrow> c < 128 \<and> c \<noteq> 37"
  by (auto simp: uri_unescaped_def)



text \<open>
  C3. For every valid path \<open>p\<close> (a well-formed string), the encoding (UTF-8 encode and
  percent-encode, then base64url without padding) gives a room name, and \<open>roomToPath\<close>
  of that room name (restore \<open>+\<close> and \<open>/\<close>, pad to a multiple of four, base64-decode,
  read as UTF-8, URI-decode) returns \<open>p\<close> exactly.
\<close>

theorem room_name_round_trip:
  assumes "wellformed p"
  shows "\<exists>room. pathToRoom p = Inr room \<and> roomToPath room = Inr p"
proof -
  from uri_round_trip [OF uri_unescaped_ascii assms] obtain e where
    e: "percent_encode uri_unescaped p = Inr e" "\<forall>c \<in> set e. c < 128"
      "decodeURIComponent e = Inr p"
    by blast
  have room: "pathToRoom p = Inr (base64url e)"
    by (simp add: pathToRoom_def encodeURIComponent_def e(1))
  have bytes: "\<forall>b \<in> set e. b < 256" using e(2) by auto
  have "roomToPath (base64url e) = decodeURIComponent (toString_utf8 e)"
    by (simp add: roomToPath_def base64_round_trip [OF bytes])
  also have "\<dots> = Inr p"
    by (simp add: toString_ascii [OF e(2)] e(3))
  finally show ?thesis using room by blast
qed

lemma sample_path_room:
  "pathToRoom sample_path = Inr (str ''JUMzJUE5JTJGJUYwJTlGJTk4JTgwLm1k'')"
  by (simp add: sample_path_def pathToRoom_def encodeURIComponent_def uri_unescaped_def
      high_surrogate_def low_surrogate_def utf8_encode_def escape_octets_def escape_octet_def
      hex_upper_def emit_def base64url_def base64url_char_def str_def)

theorem room_name_round_trip_witness:
  "wellformed sample_path
   \<and> pathToRoom sample_path = Inr (str ''JUMzJUE5JTJGJUYwJTlGJTk4JTgwLm1k'')
   \<and> roomToPath (str ''JUMzJUE5JTJGJUYwJTlGJTk4JTgwLm1k'') = Inr sample_path"
proof -
  have w: "wellformed sample_path"
    by (simp add: sample_path_def high_surrogate_def low_surrogate_def)
  show ?thesis
    using room_name_round_trip [OF w] w sample_path_room by auto
qed

end
